theory Spec2Isabelle
  imports Main
begin

section \<open>Data model of \<open>grammar.py\<close>\<close>

text \<open>
  A symbol is a Python \<open>str\<close>. Production bodies and table cells are Python strings
  that the code iterates character by character, so a body yields the
  one-character strings \<open>symbols body\<close>. The empty string stands for the empty word
  in FIRST sets and \<open>''$''\<close> is the end-marker.
\<close>

type_synonym symbol = string

datatype error = ValueError | SyntaxError | RepeatedCellError | KeyError | IndexError

definition symbols :: "string \<Rightarrow> symbol list" where
  "symbols s = map (\<lambda>c. [c]) s"

subsection \<open>Parse trees\<close>

text \<open>
  \<open>ParseTree\<close> objects are mutable and shared: a node sits in its parent's
  \<open>children\<close> list and on the tree stack at the same time, and \<open>analyze\<close> assigns
  its \<open>children\<close> attribute later. The objects created by one call therefore live in
  a store, a list of nodes addressed by position; \<open>ParseTree(s)\<close> appends a node with
  no children and yields its address.
\<close>

record node =
  root :: symbol
  children :: "nat list"

type_synonym store = "node list"

definition new_node :: "symbol \<Rightarrow> node" where
  "new_node s = \<lparr>root = s, children = []\<rparr>"

definition set_children :: "store \<Rightarrow> nat \<Rightarrow> nat list \<Rightarrow> store" where
  "set_children h a cs = h[a := (h ! a)\<lparr>children := cs\<rparr>]"

text \<open>The value of a node and everything below it, read off the store.\<close>

datatype ParseTree = ParseTree symbol "ParseTree list"

fun tree_of :: "nat \<Rightarrow> store \<Rightarrow> nat \<Rightarrow> ParseTree option" where
  "tree_of 0 h a = None"
| "tree_of (Suc n) h a =
     (if a < length h
      then map_option (ParseTree (root (h ! a))) (those (map (tree_of n h) (children (h ! a))))
      else None)"

subsection \<open>The LL(1) table\<close>

record LL1Table =
  tbl_terminals :: "symbol set"
  tbl_non_terminals :: "symbol set"
  cells :: "symbol \<rightharpoonup> (symbol \<rightharpoonup> string option)"

text \<open>\<open>self.cells.get(nt, {}).get(t)\<close>\<close>

definition cell_get :: "LL1Table \<Rightarrow> symbol \<Rightarrow> symbol \<Rightarrow> string option" where
  "cell_get tbl nt t =
     (case cells tbl nt of None \<Rightarrow> None
      | Some row \<Rightarrow> (case row t of None \<Rightarrow> None | Some v \<Rightarrow> v))"

section \<open>\<open>LL1Table.analyze\<close>\<close>

text \<open>
  Both stacks are lists whose head is the top (Python's \<open>stack[-1]\<close>), so
  \<open>tree_stack[0]\<close> is \<open>last\<close>. The inner \<open>for symbol in reversed(production)\<close>
  loop pushes a symbol and a fresh node per step and inserts the node at the front of
  \<open>children\<close>.
\<close>

fun push_symbols ::
  "symbol list \<Rightarrow> symbol list \<Rightarrow> nat list \<Rightarrow> store \<Rightarrow> nat list
    \<Rightarrow> symbol list \<times> nat list \<times> store \<times> nat list" where
  "push_symbols [] stack tree_stack h chs = (stack, tree_stack, h, chs)"
| "push_symbols (s # rest) stack tree_stack h chs =
     push_symbols rest (s # stack) (length h # tree_stack) (h @ [new_node s]) (length h # chs)"

text \<open>
  One pass through the body of the \<open>while i < len(input_list)\<close> loop, entered with
  \<open>i < len(input_list)\<close>: it raises (\<open>Inl\<close>) or yields the next input pointer,
  stacks and store. \<open>tree_stack.pop()\<close> comes before the case distinction, so it is
  done on every path.
\<close>

definition analyze_step ::
  "LL1Table \<Rightarrow> symbol list \<Rightarrow> nat \<Rightarrow> symbol list \<Rightarrow> nat list \<Rightarrow> store
    \<Rightarrow> error + nat \<times> symbol list \<times> nat list \<times> store" where
  "analyze_step self input_list i stack tree_stack h =
     (case stack of
        [] \<Rightarrow> Inl SyntaxError
      | stackTop # stack' \<Rightarrow>
        (case tree_stack of
           [] \<Rightarrow> Inl IndexError
         | current_tree # ts \<Rightarrow>
           (if stackTop \<in> tbl_terminals self \<or> stackTop = ''$'' then
              (if stackTop = input_list ! i then Inr (i + 1, stack', ts, h)
               else Inl SyntaxError)
            else if stackTop \<in> tbl_non_terminals self then
              (case cell_get self stackTop (input_list ! i) of
                 None \<Rightarrow> Inl SyntaxError
               | Some production \<Rightarrow>
                 (if production = [] then
                    Inr (i, stack', current_tree # ts, set_children h current_tree [])
                  else
                    (case push_symbols (rev (symbols production)) stack' ts h [] of
                       (stack'', ts'', h'', chs) \<Rightarrow>
                         Inr (i, stack'', current_tree # ts'',
                              set_children h'' current_tree chs))))
            else Inl SyntaxError)))"

text \<open>
  The loop itself, with \<open>self\<close> threaded through as state. It need not terminate (a
  cell may re-expand a non-terminal without consuming input), so not returning is
  the value \<open>None\<close>. Leaving the loop normally hands back both stacks and the store.
\<close>

partial_function (option) analyze_loop ::
  "LL1Table \<Rightarrow> symbol list \<Rightarrow> nat \<Rightarrow> symbol list \<Rightarrow> nat list \<Rightarrow> store
    \<Rightarrow> ((error + symbol list \<times> nat list \<times> store) \<times> LL1Table) option" where
  "analyze_loop self input_list i stack tree_stack h =
     (if i < length input_list then
        (case analyze_step self input_list i stack tree_stack h of
           Inl e \<Rightarrow> Some (Inl e, self)
         | Inr (i', stack', tree_stack', h') \<Rightarrow>
             analyze_loop self input_list i' stack' tree_stack' h')
      else Some (Inr (stack, tree_stack, h), self))"

text \<open>
  The whole method: the initial stacks hold \<open>$\<close> below \<open>start\<close>; after the loop a
  non-empty symbol stack is a syntax error, otherwise the result is
  \<open>tree_stack[0] if tree_stack else ParseTree(start)\<close>, returned as an address
  together with the store it points into. The second component is the table object
  after the call.
\<close>

definition analyze ::
  "LL1Table \<Rightarrow> string \<Rightarrow> symbol \<Rightarrow> ((error + nat \<times> store) \<times> LL1Table) option" where
  "analyze self input_string start =
     (case analyze_loop self (symbols input_string) 0 [start, ''$''] [1, 0]
             [new_node ''$'', new_node start] of
        None \<Rightarrow> None
      | Some (Inl e, self') \<Rightarrow> Some (Inl e, self')
      | Some (Inr (stack, tree_stack, h), self') \<Rightarrow>
          (if stack \<noteq> [] then Some (Inl SyntaxError, self')
           else if tree_stack \<noteq> [] then Some (Inr (last tree_stack, h), self')
           else Some (Inr (length h, h @ [new_node start]), self')))"

text \<open>The tree a successful call returns, and its leaves from left to right.\<close>

definition returned_tree :: "nat \<times> store \<Rightarrow> ParseTree option" where
  "returned_tree r = tree_of (length (snd r)) (snd r) (fst r)"

fun leaves :: "ParseTree \<Rightarrow> symbol list" where
  "leaves (ParseTree s ts) = (if ts = [] then [s] else concat (map leaves ts))"

section \<open>The class \<open>Grammar\<close>\<close>

text \<open>
  \<open>non_terminals\<close> is a Python set that the code iterates
  (\<open>for nt in self.non_terminals\<close>); it is given as the list of its elements in the
  order in which the interpreter iterates that one set object. \<open>productions\<close> is a
  \<open>dict\<close> from a non-terminal to the list of its bodies, given as the list of its items
  in insertion order. The two caches are attributes of the object and are threaded
  through every method as part of the record.
\<close>

type_synonym cache = "symbol \<rightharpoonup> symbol set"

record Grammar =
  terminals :: "symbol set"
  non_terminals :: "symbol list"
  productions :: "(symbol \<times> string list) list"
  axiom :: symbol
  first_cache :: cache
  follow_cache :: cache

subsection \<open>\<open>Grammar.__init__\<close>\<close>

fun check_body :: "symbol set \<Rightarrow> symbol list \<Rightarrow> symbol list \<Rightarrow> error + unit" where
  "check_body ts nts [] = Inr ()"
| "check_body ts nts (s # r) =
     (if s \<notin> set nts \<and> s \<notin> ts then Inl ValueError else check_body ts nts r)"

fun check_rhs :: "symbol set \<Rightarrow> symbol list \<Rightarrow> string list \<Rightarrow> error + unit" where
  "check_rhs ts nts [] = Inr ()"
| "check_rhs ts nts (r # rhs) =
     (case check_body ts nts (symbols r) of
        Inl e \<Rightarrow> Inl e
      | Inr _ \<Rightarrow> check_rhs ts nts rhs)"

fun check_productions ::
  "symbol set \<Rightarrow> symbol list \<Rightarrow> (symbol \<times> string list) list \<Rightarrow> error + unit" where
  "check_productions ts nts [] = Inr ()"
| "check_productions ts nts ((nt, rhs) # items) =
     (if rhs = [] then Inl ValueError
      else (case check_rhs ts nts rhs of
              Inl e \<Rightarrow> Inl e
            | Inr _ \<Rightarrow> check_productions ts nts items))"

text \<open>\<open>{nt: set() for nt in self.non_terminals}\<close>\<close>

definition empty_follow :: "symbol list \<Rightarrow> cache" where
  "empty_follow nts = (\<lambda>nt. if nt \<in> set nts then Some {} else None)"

definition Grammar_init ::
  "symbol set \<Rightarrow> symbol list \<Rightarrow> (symbol \<times> string list) list \<Rightarrow> symbol \<Rightarrow> error + Grammar" where
  "Grammar_init ts nts prods ax =
     (if ts \<inter> set nts \<noteq> {} then Inl ValueError
      else if ax \<notin> set nts then Inl ValueError
      else if set nts \<noteq> set (map fst prods) then Inl ValueError
      else (case check_productions ts nts prods of
              Inl e \<Rightarrow> Inl e
            | Inr _ \<Rightarrow>
                Inr \<lparr>terminals = ts, non_terminals = nts, productions = prods, axiom = ax,
                     first_cache = Map.empty,
                     follow_cache = empty_follow nts\<rparr>))"

subsection \<open>\<open>Grammar.compute_first\<close>\<close>

text \<open>
  \<open>_first\<close> calls itself on the bodies of a non-terminal that is not in the cache
  yet. The recursion is modelled with a bound on its depth: \<open>first_fuel n\<close> allows
  \<open>n\<close> nested calls and yields \<open>None\<close> when the bound is hit. The two loops take the
  function for the nested call as a parameter. A raised exception is \<open>Inl\<close>, paired
  with the cache as it is at that moment.

  \<open>fill_first\<close> is the loop \<open>for production in self.productions[symbol]\<close>. Its body
  \<open>self.first_cache[symbol].update(_first(production))\<close> looks the set object up
  before the nested call and updates it in place afterwards.
\<close>

fun fill_first ::
  "(cache \<Rightarrow> symbol list \<Rightarrow> ((error + symbol set) \<times> cache) option)
    \<Rightarrow> symbol \<Rightarrow> string list \<Rightarrow> cache \<Rightarrow> ((error + unit) \<times> cache) option" where
  "fill_first rec symbol [] c = Some (Inr (), c)"
| "fill_first rec symbol (production # rest) c =
     (case c symbol of
        None \<Rightarrow> Some (Inl KeyError, c)
      | Some old \<Rightarrow>
          (case rec c (symbols production) of
             None \<Rightarrow> None
           | Some (Inl e, c') \<Rightarrow> Some (Inl e, c')
           | Some (Inr fs, c') \<Rightarrow> fill_first rec symbol rest (c'(symbol \<mapsto> old \<union> fs))))"

text \<open>The block under \<open>if symbol not in self.first_cache\<close>.\<close>

definition ensure_cached ::
  "(cache \<Rightarrow> symbol list \<Rightarrow> ((error + symbol set) \<times> cache) option)
    \<Rightarrow> Grammar \<Rightarrow> symbol \<Rightarrow> cache \<Rightarrow> ((error + unit) \<times> cache) option" where
  "ensure_cached rec g symbol c =
     (if c symbol = None then
        (case map_of (productions g) symbol of
           None \<Rightarrow> Some (Inl KeyError, c(symbol \<mapsto> {}))
         | Some bodies \<Rightarrow> fill_first rec symbol bodies (c(symbol \<mapsto> {})))
      else Some (Inr (), c))"

text \<open>
  The loop \<open>for i, symbol in enumerate(seq)\<close> with the set \<open>first_set\<close> built so
  far; \<open>i == len(seq) - 1\<close> holds when no symbol is left after the current one.
\<close>

fun first_loop ::
  "(cache \<Rightarrow> symbol list \<Rightarrow> ((error + symbol set) \<times> cache) option)
    \<Rightarrow> Grammar \<Rightarrow> symbol list \<Rightarrow> symbol set \<Rightarrow> cache
    \<Rightarrow> ((error + symbol set) \<times> cache) option" where
  "first_loop rec g [] first_set c = Some (Inr first_set, c)"
| "first_loop rec g (symbol # rest) first_set c =
     (if symbol \<in> terminals g then Some (Inr (insert symbol first_set), c)
      else if symbol \<in> set (non_terminals g) then
        (case ensure_cached rec g symbol c of
           None \<Rightarrow> None
         | Some (Inl e, c') \<Rightarrow> Some (Inl e, c')
         | Some (Inr _, c') \<Rightarrow>
             (case c' symbol of
                None \<Rightarrow> Some (Inl KeyError, c')
              | Some fs \<Rightarrow>
                  (if '''' \<notin> fs then Some (Inr (first_set \<union> (fs - {''''})), c')
                   else first_loop rec g rest
                          (if rest = [] then insert '''' (first_set \<union> (fs - {''''}))
                           else first_set \<union> (fs - {''''})) c')))
      else Some (Inl ValueError, c))"

primrec first_fuel ::
  "nat \<Rightarrow> Grammar \<Rightarrow> cache \<Rightarrow> symbol list \<Rightarrow> ((error + symbol set) \<times> cache) option" where
  "first_fuel 0 g c seq = None"
| "first_fuel (Suc n) g c seq =
     (if seq = [] then Some (Inr {''''}, c) else first_loop (first_fuel n g) g seq {} c)"

text \<open>
  The method. A non-terminal enters the cache before its bodies are scanned, so the
  nesting never exceeds the number of non-terminals; that many nested calls are
  allowed here (\<open>first_fuel_enough\<close> below shows that the bound is not hit, and
  \<open>first_fuel_mono\<close> that a larger one gives the same result).
\<close>

definition compute_first ::
  "Grammar \<Rightarrow> symbol list \<Rightarrow> ((error + symbol set) \<times> Grammar) option" where
  "compute_first g sentence =
     (case first_fuel (Suc (length (non_terminals g))) g (first_cache g) sentence of
        None \<Rightarrow> None
      | Some (r, c) \<Rightarrow> Some (r, g\<lparr>first_cache := c\<rparr>))"

subsection \<open>\<open>Grammar.compute_follow\<close>\<close>

text \<open>The loop \<open>for nt in self.non_terminals: self.compute_first([nt])\<close>.\<close>

fun first_all :: "Grammar \<Rightarrow> symbol list \<Rightarrow> ((error + unit) \<times> Grammar) option" where
  "first_all g [] = Some (Inr (), g)"
| "first_all g (nt # nts) =
     (case compute_first g [nt] of
        None \<Rightarrow> None
      | Some (Inl e, g') \<Rightarrow> Some (Inl e, g')
      | Some (Inr _, g') \<Rightarrow> first_all g' nts)"

text \<open>
  The \<open>for sym in omega ... else\<close> loop that computes \<open>first_omega\<close> (\<open>symb\<close> is
  the loop variable \<open>sym\<close>): leaving it without \<open>break\<close> adds the empty string.
\<close>

fun first_star :: "Grammar \<Rightarrow> symbol list \<Rightarrow> symbol set \<Rightarrow> error + symbol set" where
  "first_star g [] first_omega = Inr (insert '''' first_omega)"
| "first_star g (symb # omega) first_omega =
     (if symb \<in> set (non_terminals g) then
        (case first_cache g symb of
           None \<Rightarrow> Inl KeyError
         | Some fs \<Rightarrow>
             (if '''' \<notin> fs then Inr (first_omega \<union> (fs - {''''}))
              else first_star g omega (first_omega \<union> (fs - {''''}))))
      else Inr (insert symb first_omega))"

definition first_omega_of :: "Grammar \<Rightarrow> symbol list \<Rightarrow> error + symbol set" where
  "first_omega_of g omega = (if omega \<noteq> [] then first_star g omega {} else Inr {''''})"

text \<open>
  The body of the innermost loop for the occurrence of \<open>A\<close> followed by \<open>omega\<close> in a
  body of \<open>head\<close>; the state is the FOLLOW cache and the flag \<open>changed\<close>.
\<close>

definition follow_update ::
  "Grammar \<Rightarrow> symbol \<Rightarrow> symbol \<Rightarrow> symbol list \<Rightarrow> cache \<times> bool
    \<Rightarrow> (error + unit) \<times> cache \<times> bool" where
  "follow_update g head A omega st =
     (case st of (fc, changed) \<Rightarrow>
        if A \<notin> set (non_terminals g) then (Inr (), fc, changed)
        else
          (case first_omega_of g omega of
             Inl e \<Rightarrow> (Inl e, fc, changed)
           | Inr first_omega \<Rightarrow>
               (case fc A of
                  None \<Rightarrow> (Inl KeyError, fc, changed)
                | Some fA \<Rightarrow>
                    (case (if \<not> first_omega - {''''} \<subseteq> fA
                           then (fc(A \<mapsto> fA \<union> (first_omega - {''''})), True)
                           else (fc, changed)) of
                       (fc1, changed1) \<Rightarrow>
                         if '''' \<in> first_omega then
                           (case fc1 head of
                              None \<Rightarrow> (Inl KeyError, fc1, changed1)
                            | Some fH \<Rightarrow>
                                (case fc1 A of
                                   None \<Rightarrow> (Inl KeyError, fc1, changed1)
                                 | Some fA1 \<Rightarrow>
                                     if \<not> fH \<subseteq> fA1
                                     then (Inr (), fc1(A \<mapsto> fA1 \<union> fH), True)
                                     else (Inr (), fc1, changed1)))
                         else (Inr (), fc1, changed1)))))"

text \<open>\<open>for i, A in enumerate(prod)\<close>, where \<open>omega = prod[i + 1:]\<close> is the rest.\<close>

fun follow_body ::
  "Grammar \<Rightarrow> symbol \<Rightarrow> symbol list \<Rightarrow> cache \<times> bool \<Rightarrow> (error + unit) \<times> cache \<times> bool" where
  "follow_body g head [] st = (Inr (), st)"
| "follow_body g head (A # omega) st =
     (case follow_update g head A omega st of
        (Inl e, st') \<Rightarrow> (Inl e, st')
      | (Inr _, st') \<Rightarrow> follow_body g head omega st')"

text \<open>\<open>for prod in productions\<close> (\<open>body\<close> is the loop variable \<open>prod\<close>)\<close>

fun follow_bodies ::
  "Grammar \<Rightarrow> symbol \<Rightarrow> string list \<Rightarrow> cache \<times> bool \<Rightarrow> (error + unit) \<times> cache \<times> bool" where
  "follow_bodies g head [] st = (Inr (), st)"
| "follow_bodies g head (body # bodies) st =
     (case follow_body g head (symbols body) st of
        (Inl e, st') \<Rightarrow> (Inl e, st')
      | (Inr _, st') \<Rightarrow> follow_bodies g head bodies st')"

text \<open>\<open>for head, productions in self.productions.items()\<close>\<close>

fun follow_items ::
  "Grammar \<Rightarrow> (symbol \<times> string list) list \<Rightarrow> cache \<times> bool
    \<Rightarrow> (error + unit) \<times> cache \<times> bool" where
  "follow_items g [] st = (Inr (), st)"
| "follow_items g ((head, bodies) # items) st =
     (case follow_bodies g head bodies st of
        (Inl e, st') \<Rightarrow> (Inl e, st')
      | (Inr _, st') \<Rightarrow> follow_items g items st')"

text \<open>
  One pass of the \<open>while changed\<close> loop starts with \<open>changed = False\<close>; the loop
  repeats while a pass sets the flag. Not leaving the loop is \<open>None\<close>.
\<close>

definition follow_pass :: "Grammar \<Rightarrow> cache \<Rightarrow> (error + unit) \<times> cache \<times> bool" where
  "follow_pass g fc = follow_items g (productions g) (fc, False)"

partial_function (option) follow_while ::
  "Grammar \<Rightarrow> cache \<Rightarrow> ((error + unit) \<times> cache) option" where
  "follow_while g fc =
     (case follow_pass g fc of
        (Inl e, fc', changed) \<Rightarrow> Some (Inl e, fc')
      | (Inr _, fc', changed) \<Rightarrow>
          if changed then follow_while g fc' else Some (Inr (), fc'))"

definition compute_follow ::
  "Grammar \<Rightarrow> symbol \<Rightarrow> ((error + symbol set) \<times> Grammar) option" where
  "compute_follow g symbol =
     (case first_all g (non_terminals g) of
        None \<Rightarrow> None
      | Some (Inl e, g1) \<Rightarrow> Some (Inl e, g1)
      | Some (Inr _, g1) \<Rightarrow>
          if symbol \<notin> set (non_terminals g1) then Some (Inl ValueError, g1)
          else
            (case empty_follow (non_terminals g1) (axiom g1) of
               None \<Rightarrow>
                 Some (Inl KeyError, g1\<lparr>follow_cache := empty_follow (non_terminals g1)\<rparr>)
             | Some s \<Rightarrow>
                 (case follow_while g1
                         ((empty_follow (non_terminals g1))(axiom g1 \<mapsto> insert ''$'' s)) of
                    None \<Rightarrow> None
                  | Some (Inl e, fc) \<Rightarrow> Some (Inl e, g1\<lparr>follow_cache := fc\<rparr>)
                  | Some (Inr _, fc) \<Rightarrow>
                      (case fc symbol of
                         None \<Rightarrow> Some (Inl KeyError, g1\<lparr>follow_cache := fc\<rparr>)
                       | Some S \<Rightarrow> Some (Inr S, g1\<lparr>follow_cache := fc\<rparr>)))))"

subsection \<open>\<open>LL1Table.__init__\<close> and \<open>LL1Table.add_cell\<close>\<close>



subsection \<open>\<open>Grammar.get_ll1_table\<close> and \<open>Grammar.is_ll1\<close>\<close>


text \<open>
  The symbols of all bodies, as the two nested loops with \<open>terminals.update(prod)\<close>
  collect them, and the column set of the table: those symbols without the
  non-terminals, and \<open>$\<close>.
\<close>

definition body_symbols :: "Grammar \<Rightarrow> symbol set" where
  "body_symbols g = (\<Union>(h, bs) \<in> set (productions g). \<Union>b \<in> set bs. set (symbols b))"







section \<open>Example tables\<close>

text \<open>
  The table of the grammar \<open>S -> aB; B -> b\<close>: \<open>LL1Table({S, B}, {a, b, $})\<close> after
  \<open>add_cell('S', 'a', 'aB')\<close> and \<open>add_cell('B', 'b', 'b')\<close>.
\<close>

definition tbl_SaB :: LL1Table where
  "tbl_SaB = \<lparr>tbl_terminals = {''a'', ''b'', ''$''}, tbl_non_terminals = {''S'', ''B''},
     cells = [''S'' \<mapsto> [''a'' \<mapsto> Some ''aB'', ''b'' \<mapsto> None, ''$'' \<mapsto> None],
              ''B'' \<mapsto> [''a'' \<mapsto> None, ''b'' \<mapsto> Some ''b'', ''$'' \<mapsto> None]]\<rparr>"

text \<open>The store in which the call on \<open>ab$\<close> ends.\<close>

definition store_SaB :: store where
  "store_SaB =
     [\<lparr>root = ''$'', children = []\<rparr>, \<lparr>root = ''S'', children = [3, 2]\<rparr>,
      \<lparr>root = ''B'', children = []\<rparr>, \<lparr>root = ''a'', children = [4]\<rparr>,
      \<lparr>root = ''b'', children = []\<rparr>]"

text \<open>
  A table built by hand: \<open>LL1Table({A}, {a})\<close> after \<open>add_cell('A', 'a', 'A')\<close>.
\<close>

definition tbl_loop :: LL1Table where
  "tbl_loop = \<lparr>tbl_terminals = {''a''}, tbl_non_terminals = {''A''},
     cells = [''A'' \<mapsto> [''a'' \<mapsto> Some ''A'']]\<rparr>"

section \<open>Example grammars\<close>

text \<open>
  The grammar \<open>E -> TX; X -> +E | \<epsilon>; T -> iY | (E); Y -> *T | \<epsilon>\<close> with axiom \<open>E\<close>,
  as \<open>Grammar.__init__\<close> leaves it, with the non-terminals iterated in the order
  \<open>nts\<close>.
\<close>

definition g_E :: "symbol list \<Rightarrow> Grammar" where
  "g_E nts =
     \<lparr>terminals = {''+'', ''*'', ''i'', ''('', '')''},
      non_terminals = nts,
      productions = [(''E'', [''TX'']), (''X'', [''+E'', '''']),
                     (''T'', [''iY'', ''(E)'']), (''Y'', [''*T'', ''''])],
      axiom = ''E'', first_cache = Map.empty, follow_cache = empty_follow nts\<rparr>"

section \<open>Validation in words\<close>

text \<open>
  The five conditions under which construction is said to fail, as the
  description of the class words them: the two symbol sets intersect; the axiom is
  not a non-terminal; the keys of the production map are not the non-terminals;
  some symbol of some body is neither a terminal nor a non-terminal; some
  non-terminal has an empty list of bodies.
\<close>

definition invalid_input ::
  "symbol set \<Rightarrow> symbol list \<Rightarrow> (symbol \<times> string list) list \<Rightarrow> symbol \<Rightarrow> bool" where
  "invalid_input ts nts prods ax \<longleftrightarrow>
     ts \<inter> set nts \<noteq> {}
     \<or> ax \<notin> set nts
     \<or> set (map fst prods) \<noteq> set nts
     \<or> (\<exists>(nt, rhs) \<in> set prods. \<exists>r \<in> set rhs. \<exists>s \<in> set (symbols r). s \<notin> ts \<and> s \<notin> set nts)
     \<or> (\<exists>nt \<in> set nts. (nt, []) \<in> set prods)"

section \<open>Example grammar states\<close>

text \<open>
  The grammar \<open>S -> aB; B -> b\<close> as \<open>Grammar.__init__\<close> leaves it, and the same
  object once the FIRST sets of both non-terminals are cached.
\<close>

definition g_SaB :: Grammar where
  "g_SaB =
     \<lparr>terminals = {''a'', ''b''}, non_terminals = [''S'', ''B''],
      productions = [(''S'', [''aB'']), (''B'', [''b''])], axiom = ''S'',
      first_cache = Map.empty, follow_cache = empty_follow [''S'', ''B'']\<rparr>"

definition g_SaB_cached :: Grammar where
  "g_SaB_cached = g_SaB\<lparr>first_cache := [''S'' \<mapsto> {''a''}, ''B'' \<mapsto> {''b''}]\<rparr>"

text \<open>The FOLLOW set that the object holds for its axiom.\<close>

definition axiom_follow :: "Grammar \<Rightarrow> symbol set option" where
  "axiom_follow g = follow_cache g (axiom g)"



section \<open>Predicates used in the proofs\<close>

definition valid_grammar :: "Grammar \<Rightarrow> bool" where
  "valid_grammar g \<longleftrightarrow>
     \<not> invalid_input (terminals g) (non_terminals g) (productions g) (axiom g)"

definition cache_ok :: "Grammar \<Rightarrow> cache \<Rightarrow> bool" where
  "cache_ok g c \<longleftrightarrow>
     (\<forall>A S. c A = Some S \<longrightarrow> finite S \<and> S \<subseteq> insert '''' (terminals g \<inter> body_symbols g))"

text \<open>What a run of _first may assume of the function it calls for nested runs.\<close>

definition first_sound ::
  "Grammar \<Rightarrow> (cache \<Rightarrow> symbol list \<Rightarrow> ((error + symbol set) \<times> cache) option) \<Rightarrow> bool" where
  "first_sound g rec \<longleftrightarrow>
     (\<forall>c seq r c'. rec c seq = Some (r, c') \<longrightarrow>
        c \<subseteq>\<^sub>m c' \<and> dom c' \<subseteq> dom c \<union> set (non_terminals g)
        \<and> (cache_ok g c \<longrightarrow> cache_ok g c'
             \<and> (\<forall>S. r = Inr S \<longrightarrow> finite S \<and> S \<subseteq> insert '''' (terminals g \<inter> (body_symbols g \<union> set seq))))
        \<and> (valid_grammar g \<longrightarrow> set seq \<subseteq> terminals g \<union> set (non_terminals g) \<longrightarrow> (\<exists>S. r = Inr S)))"

definition uncached :: "Grammar \<Rightarrow> cache \<Rightarrow> nat" where
  "uncached g c = card (set (non_terminals g) - dom c)"

definition first_total ::
  "Grammar \<Rightarrow> nat \<Rightarrow> (cache \<Rightarrow> symbol list \<Rightarrow> ((error + symbol set) \<times> cache) option) \<Rightarrow> bool" where
  "first_total g n rec \<longleftrightarrow> (\<forall>c seq. uncached g c < n \<longrightarrow> rec c seq \<noteq> None)"

text \<open>more fuel, same result\<close>

definition first_le ::
  "(cache \<Rightarrow> symbol list \<Rightarrow> ((error + symbol set) \<times> cache) option) \<Rightarrow>
   (cache \<Rightarrow> symbol list \<Rightarrow> ((error + symbol set) \<times> cache) option) \<Rightarrow> bool" where
  "first_le rec rec' \<longleftrightarrow> (\<forall>c seq x. rec c seq = Some x \<longrightarrow> rec' c seq = Some x)"

definition follow_graph :: "cache \<Rightarrow> (symbol \<times> symbol) set" where
  "follow_graph fc = {(A, x). \<exists>S. fc A = Some S \<and> x \<in> S}"

definition universe :: "Grammar \<Rightarrow> symbol set" where
  "universe g =
     (\<Union>A \<in> set (non_terminals g). case first_cache g A of None \<Rightarrow> {} | Some S \<Rightarrow> S - {''''})
     \<union> (body_symbols g - set (non_terminals g)) \<union> {''$''}"

definition within :: "symbol set \<Rightarrow> cache \<Rightarrow> bool" where
  "within U fc \<longleftrightarrow> (\<forall>A S. fc A = Some S \<longrightarrow> S \<subseteq> U)"

definition follow_grows :: "cache \<times> bool \<Rightarrow> cache \<times> bool \<Rightarrow> bool" where
  "follow_grows st st' \<longleftrightarrow>
     dom (fst st') = dom (fst st)
     \<and> follow_graph (fst st) \<subseteq> follow_graph (fst st')
     \<and> (snd st \<longrightarrow> snd st')
     \<and> (snd st' \<and> \<not> snd st \<longrightarrow> follow_graph (fst st) \<subset> follow_graph (fst st'))
     \<and> (\<not> snd st' \<longrightarrow> fst st' = fst st)"

definition follow_ready :: "Grammar \<Rightarrow> cache \<Rightarrow> symbol \<Rightarrow> bool" where
  "follow_ready g fc head \<longleftrightarrow>
     (\<forall>A \<in> set (non_terminals g). first_cache g A \<noteq> None)
     \<and> set (non_terminals g) \<subseteq> dom fc \<and> head \<in> dom fc"

definition follow_ok ::
  "Grammar \<Rightarrow> symbol set \<Rightarrow> symbol set \<Rightarrow> cache \<times> bool \<Rightarrow> (error + unit) \<times> cache \<times> bool \<Rightarrow> bool" where
  "follow_ok g heads syms st res \<longleftrightarrow>
     follow_grows st (snd res)
     \<and> (within (universe g) (fst st) \<longrightarrow> syms - set (non_terminals g) \<subseteq> universe g \<longrightarrow> within (universe g) (fst (snd res)))
     \<and> ((\<forall>A \<in> set (non_terminals g). first_cache g A \<noteq> None)
          \<and> set (non_terminals g) \<union> heads \<subseteq> dom (fst st) \<longrightarrow> fst res = Inr ())"

definition same_grammar :: "Grammar \<Rightarrow> Grammar \<Rightarrow> bool" where
  "same_grammar g g' \<longleftrightarrow>
     terminals g' = terminals g \<and> non_terminals g' = non_terminals g
     \<and> productions g' = productions g \<and> axiom g' = axiom g"











section \<open>Properties of \<open>analyze\<close>\<close>

lemma push_symbols_eq:
  "push_symbols xs stack ts h chs =
     (rev xs @ stack, rev [length h ..< length h + length xs] @ ts,
      h @ map new_node xs, rev [length h ..< length h + length xs] @ chs)"
proof (induction xs arbitrary: stack ts h chs)
  case Nil
  then show ?case by simp
next
  case (Cons x xs)
  have "[length h ..< length h + Suc (length xs)]
          = length h # [Suc (length h) ..< length h + Suc (length xs)]"
    by (rule upt_conv_Cons) simp
  then show ?case by (simp add: Cons.IH)
qed

lemma analyze_loop_invariant:
  assumes run: "analyze_loop self inp i st ts h = Some res"
    and init: "I i st ts h"
    and step: "\<forall>i st ts h i' st' ts' h'. I i st ts h \<longrightarrow> i < length inp \<longrightarrow>
        analyze_step self inp i st ts h = Inr (i', st', ts', h') \<longrightarrow> I i' st' ts' h'"
  shows "snd res = self \<and>
    (case fst res of
       Inl e \<Rightarrow> (\<exists>i st ts h. I i st ts h \<and> i < length inp \<and> analyze_step self inp i st ts h = Inl e)
     | Inr (st', ts', h') \<Rightarrow> (\<exists>i'. I i' st' ts' h' \<and> \<not> i' < length inp))"
proof -
  define C where "C = (\<lambda>res. snd res = self \<and>
    (case fst res of
       Inl e \<Rightarrow> (\<exists>i st ts h. I i st ts h \<and> i < length inp \<and> analyze_step self inp i st ts h = Inl e)
     | Inr (st', ts', h') \<Rightarrow> (\<exists>i'. I i' st' ts' h' \<and> \<not> i' < length inp)))"
  define P where "P = (\<lambda>self' inp' i st ts h res.
     self' = self \<longrightarrow> inp' = inp \<longrightarrow> I i st ts h \<longrightarrow> C res)"
  have "P self inp i st ts h res"
  proof (rule analyze_loop.raw_induct[where P = P, OF _ run])
    fix loop self' inp' i st ts h res
    assume IH: "\<And>a b c d e f y. loop a b c d e f = Some y \<Longrightarrow> P a b c d e f y"
      and body: "(if i < length inp' then
        (case analyze_step self' inp' i st ts h of
           Inl e \<Rightarrow> Some (Inl e, self')
         | Inr (i', stack', tree_stack', h') \<Rightarrow> loop self' inp' i' stack' tree_stack' h')
      else Some (Inr (st, ts, h), self')) = Some res"
    show "P self' inp' i st ts h res"
      unfolding P_def
    proof (intro impI)
      assume eq: "self' = self" "inp' = inp" and I: "I i st ts h"
      show "C res"
      proof (cases "i < length inp")
        case False
        with body eq have "res = (Inr (st, ts, h), self)" by auto
        with False I show ?thesis unfolding C_def by auto
      next
        case True
        show ?thesis
        proof (cases "analyze_step self inp i st ts h")
          case (Inl e)
          with body eq True have "res = (Inl e, self)" by simp
          with Inl True I show ?thesis unfolding C_def by auto
        next
          case (Inr s')
          obtain i' st' ts' h' where s': "s' = (i', st', ts', h')" by (cases s') auto
          from body eq True Inr s' have "loop self inp i' st' ts' h' = Some res" by simp
          then have "P self inp i' st' ts' h' res" by (rule IH)
          moreover have "I i' st' ts' h'" using step I True Inr s' by blast
          ultimately show ?thesis unfolding P_def by blast
        qed
      qed
    qed
  qed
  with init show ?thesis unfolding P_def C_def by blast
qed


lemma dollar_notin_symbols: "(''$'' \<in> set (symbols s)) = (CHR ''$'' \<in> set s)"
  by (auto simp: symbols_def)

lemma analyze_step_bottom:
  assumes J: "length st < length ts \<and> last ts = 0 \<and> 0 \<notin> set (butlast ts) \<and> h \<noteq> [] \<and> h ! 0 = new_node ''$''"
    and step: "analyze_step self inp i st ts h = Inr (i', st', ts', h')"
  shows "length st' < length ts' \<and> last ts' = 0 \<and> 0 \<notin> set (butlast ts') \<and> h' \<noteq> [] \<and> h' ! 0 = new_node ''$''"
proof -
  from step obtain top rest where st: "st = top # rest"
    by (cases st) (auto simp: analyze_step_def)
  with J obtain cur ts1 where ts: "ts = cur # ts1" and ts1: "ts1 \<noteq> []"
    by (cases ts; cases "tl ts") auto
  from J ts ts1 have cur0: "cur \<noteq> 0" and last1: "last ts1 = 0" and b1: "0 \<notin> set (butlast ts1)"
    by auto
  from J have h0: "0 < length h" by simp
  show ?thesis
  proof (cases "top \<in> tbl_terminals self \<or> top = ''$''")
    case True
    with step st ts have "st' = rest" "ts' = ts1" "h' = h"
      by (auto simp: analyze_step_def split: if_splits)
    with J st ts last1 b1 show ?thesis by auto
  next
    case False
    with step st ts obtain production where
      prod: "cell_get self top (inp ! i) = Some production" and nt: "top \<in> tbl_non_terminals self"
      by (auto simp: analyze_step_def split: if_splits option.splits)
    show ?thesis
    proof (cases "production = []")
      case True
      with step st ts False nt prod have "st' = rest" "ts' = cur # ts1" "h' = set_children h cur []"
        by (auto simp: analyze_step_def)
      with J st ts cur0 h0 show ?thesis by (auto simp: set_children_def)
    next
      case False
      define k where "k = length (symbols production)"
      from step st ts \<open>\<not> (top \<in> tbl_terminals self \<or> top = ''$'')\<close> nt prod False
      have r: "st' = symbols production @ rest"
        "ts' = cur # rev [length h ..< length h + k] @ ts1"
        "h' = set_children (h @ map new_node (rev (symbols production))) cur
                (rev [length h ..< length h + k])"
        by (auto simp: analyze_step_def push_symbols_eq k_def)
      have "0 \<notin> set (butlast (cur # rev [length h ..< length h + k] @ ts1))"
        using cur0 b1 ts1 h0 by (auto simp: butlast_append)
      moreover have "last ts' = 0" using r ts1 last1 by simp
      moreover have "length st' < length ts'" using r J st ts by (simp add: k_def)
      moreover have "h' \<noteq> [] \<and> h' ! 0 = new_node ''$''"
        using r J cur0 h0 by (auto simp: set_children_def nth_append)
      ultimately show ?thesis using r by simp
    qed
  qed
qed

lemma analyze_cases:
  assumes "analyze self input_string start = Some (r, self')"
  obtains (raise) e where
      "analyze_loop self (symbols input_string) 0 [start, ''$''] [1, 0]
         [new_node ''$'', new_node start] = Some (Inl e, self')" "r = Inl e"
  | (leftover) st ts h where
      "analyze_loop self (symbols input_string) 0 [start, ''$''] [1, 0]
         [new_node ''$'', new_node start] = Some (Inr (st, ts, h), self')"
      "st \<noteq> []" "r = Inl SyntaxError"
  | (root) ts h where
      "analyze_loop self (symbols input_string) 0 [start, ''$''] [1, 0]
         [new_node ''$'', new_node start] = Some (Inr ([], ts, h), self')"
      "ts \<noteq> []" "r = Inr (last ts, h)"
  | (fresh) h where
      "analyze_loop self (symbols input_string) 0 [start, ''$''] [1, 0]
         [new_node ''$'', new_node start] = Some (Inr ([], [], h), self')"
      "r = Inr (length h, h @ [new_node start])"
  using assms
  by (auto simp: analyze_def split: option.splits sum.splits if_splits prod.splits)

lemma analyze_accept_end_marker:
  assumes nt: "start \<in> tbl_non_terminals self" "start \<notin> tbl_terminals self" "start \<noteq> ''$''"
    and acc: "analyze self input_string start = Some (Inr (a, h), self')"
  shows "a = 0 \<and> returned_tree (a, h) = Some (ParseTree ''$'' [])"
proof -
  let ?inp = "symbols input_string"
  let ?h0 = "[new_node ''$'', new_node start]"
  let ?J = "\<lambda>st ts h. length st < length ts \<and> last ts = 0 \<and> 0 \<notin> set (butlast ts) \<and> h \<noteq> [] \<and> h ! 0 = new_node ''$''"
  let ?I = "\<lambda>(i::nat) st ts h. ?J st ts h \<or> (st = [start, ''$''] \<and> ts = [1, 0] \<and> h = ?h0)"
  have step: "?I i' st' ts' h'"
    if I: "?I i st ts h" and s: "analyze_step self ?inp i st ts h = Inr (i', st', ts', h')"
    for i st ts h i' st' ts' h'
  proof (cases "?J st ts h")
    case True
    from analyze_step_bottom[OF True s] show ?thesis by blast
  next
    case False
    with I have init: "st = [start, ''$'']" "ts = [1, 0]" and h: "h = ?h0" by auto
    from h have h2: "0 < length h" "h ! 0 = new_node ''$''" by simp_all
    from s init nt obtain production where
      prod: "cell_get self start (?inp ! i) = Some production"
      by (auto simp: analyze_step_def split: option.splits)
    show ?thesis
    proof (cases "production = []")
      case True
      with s init nt prod have "st' = [''$'']" "ts' = [1, 0]" "h' = set_children h 1 []"
        by (auto simp: analyze_step_def)
      with h show ?thesis by (simp add: set_children_def)
    next
      case False
      define k where "k = length (symbols production)"
      from s init nt prod False
      have r: "st' = symbols production @ [''$'']"
        "ts' = 1 # rev [length h ..< length h + k] @ [0]"
        "h' = set_children (h @ map new_node (rev (symbols production))) 1
                (rev [length h ..< length h + k])"
        by (auto simp: analyze_step_def push_symbols_eq k_def)
      have "0 \<notin> set (butlast (1 # rev [length h ..< length h + k] @ [0::nat]))"
        using h2 by (auto simp: butlast_append)
      moreover have "h' \<noteq> [] \<and> h' ! 0 = new_node ''$''"
        using r h2 by (auto simp: set_children_def nth_append)
      ultimately have "?J st' ts' h'" using r by (simp add: k_def)
      then show ?thesis by blast
    qed
  qed
  have step': "\<forall>i st ts h i' st' ts' h'. ?I i st ts h \<longrightarrow> i < length ?inp \<longrightarrow>
      analyze_step self ?inp i st ts h = Inr (i', st', ts', h') \<longrightarrow> ?I i' st' ts' h'"
    using step by blast
  have I0: "?I 0 [start, ''$''] [1, 0] ?h0" by simp
  from acc show ?thesis
  proof (cases rule: analyze_cases)
    case (root ts h1)
    then have hh: "h1 = h" and a: "a = last ts" by simp_all
    from analyze_loop_invariant[where I = ?I, OF root(1) I0 step']
    have "\<exists>i'. ?I i' [] ts h" by (simp add: hh)
    then have J: "?J [] ts h" by auto
    from J a have a0: "a = 0" by simp
    from J have "0 < length h" by simp
    then obtain n where n: "length h = Suc n" by (cases "length h") auto
    have "tree_of (length h) h 0 = Some (ParseTree ''$'' [])"
      using J by (simp add: n new_node_def)
    with a0 show ?thesis by (simp add: returned_tree_def)
  next
    case (fresh h1)
    from analyze_loop_invariant[where I = ?I, OF fresh(1) I0 step']
    have "\<exists>i'. ?I i' [] [] h1" by simp
    then show ?thesis by simp
  qed simp_all
qed

lemma analyze_no_end_marker:
  assumes no: "CHR ''$'' \<notin> set input_string"
    and res: "analyze self input_string start = Some (r, self')"
  shows "r = Inl SyntaxError"
proof -
  let ?inp = "symbols input_string"
  let ?I = "\<lambda>(i::nat) st (ts::nat list) (h::store). st \<noteq> [] \<and> last st = ''$'' \<and> length st \<le> length ts"
  have nd: "''$'' \<notin> set ?inp" using no by (simp add: dollar_notin_symbols)
  have step0: "?I i' st' ts' h'"
    if I: "?I i st ts h" and i: "i < length ?inp"
      and s: "analyze_step self ?inp i st ts h = Inr (i', st', ts', h')"
    for i st ts h i' st' ts' h'
  proof -
    from I obtain top rest where st: "st = top # rest" by (cases st) auto
    with I obtain cur ts1 where ts: "ts = cur # ts1" by (cases ts) auto
    from i nd have ne: "?inp ! i \<noteq> ''$''" by (metis nth_mem)
    show ?thesis
    proof (cases "top \<in> tbl_terminals self \<or> top = ''$''")
      case True
      with s st ts have eq: "top = ?inp ! i" "st' = rest" "ts' = ts1"
        by (auto simp: analyze_step_def split: if_splits)
      with ne I st have "rest \<noteq> []" by auto
      with eq I st ts show ?thesis by auto
    next
      case False
      with I st have rest: "rest \<noteq> []" by auto
      from False s st ts obtain production where
        prod: "cell_get self top (?inp ! i) = Some production" and nt: "top \<in> tbl_non_terminals self"
        by (auto simp: analyze_step_def split: if_splits option.splits)
      show ?thesis
      proof (cases "production = []")
        case True
        with s st ts False nt prod have "st' = rest" "ts' = cur # ts1"
          by (auto simp: analyze_step_def)
        with I st ts rest show ?thesis by auto
      next
        case F: False
        from s st ts False nt prod F
        have r: "st' = symbols production @ rest"
          "length ts' = Suc (length (symbols production) + length ts1)"
          by (auto simp: analyze_step_def push_symbols_eq)
        with I st ts rest show ?thesis by auto
      qed
    qed
  qed
  have err: "e = SyntaxError"
    if I: "?I i st ts h" and s: "analyze_step self ?inp i st ts h = Inl e" for i st ts h e
  proof -
    from I obtain top rest where st: "st = top # rest" by (cases st) auto
    with I obtain cur ts1 where ts: "ts = cur # ts1" by (cases ts) auto
    from s st ts show ?thesis
      by (auto simp: analyze_step_def split: if_splits option.splits prod.splits)
  qed
  have step: "\<forall>i st ts h i' st' ts' h'. ?I i st ts h \<longrightarrow> i < length ?inp \<longrightarrow>
      analyze_step self ?inp i st ts h = Inr (i', st', ts', h') \<longrightarrow> ?I i' st' ts' h'"
    using step0 by blast
  have I0: "?I 0 [start, ''$''] [1, 0] [new_node ''$'', new_node start]" by simp
  from res show ?thesis
  proof (cases rule: analyze_cases)
    case (raise e)
    from analyze_loop_invariant[where I = ?I, OF raise(1) I0 step] err raise
    show ?thesis by auto
  next
    case (root ts h)
    from analyze_loop_invariant[where I = ?I, OF root(1) I0 step]
    show ?thesis by auto
  next
    case (fresh h)
    from analyze_loop_invariant[where I = ?I, OF fresh(1) I0 step]
    show ?thesis by auto
  qed simp
qed

lemma analyze_frame:
  assumes "analyze self input_string start = Some (r, self')"
  shows "self' = self"
  using assms
proof (cases rule: analyze_cases)
  case (raise e)
  from analyze_loop_invariant[OF raise(1), where I = "\<lambda>_ _ _ _. True"] show ?thesis by simp
next
  case (leftover st ts h)
  from analyze_loop_invariant[OF leftover(1), where I = "\<lambda>_ _ _ _. True"] show ?thesis by simp
next
  case (root ts h)
  from analyze_loop_invariant[OF root(1), where I = "\<lambda>_ _ _ _. True"] show ?thesis by simp
next
  case (fresh h)
  from analyze_loop_invariant[OF fresh(1), where I = "\<lambda>_ _ _ _. True"] show ?thesis by simp
qed

lemma analyze_tbl_loop: "analyze tbl_loop ''a'' ''A'' = None"
proof -
  let ?I = "\<lambda>(i::nat) st (ts::nat list) (h::store). i = 0 \<and> st = [''A'', ''$''] \<and> ts \<noteq> []"
  have step0: "?I i' st' ts' h'"
    if I: "?I i st ts h" and s: "analyze_step tbl_loop [''a''] i st ts h = Inr (i', st', ts', h')"
    for i st ts h i' st' ts' h'
  proof -
    from I obtain cur ts1 where ts: "ts = cur # ts1" by (cases ts) auto
    from s I ts show ?thesis
      by (auto simp: analyze_step_def tbl_loop_def cell_get_def symbols_def split: if_splits)
  qed
  have step: "\<forall>i st ts h i' st' ts' h'. ?I i st ts h \<longrightarrow> i < length [''a''] \<longrightarrow>
      analyze_step tbl_loop [''a''] i st ts h = Inr (i', st', ts', h') \<longrightarrow> ?I i' st' ts' h'"
    using step0 by blast
  have "analyze_loop tbl_loop [''a''] 0 [''A'', ''$''] [1, 0] [new_node ''$'', new_node ''A''] \<noteq> Some res" for res
  proof
    assume a: "analyze_loop tbl_loop [''a''] 0 [''A'', ''$''] [1, 0] [new_node ''$'', new_node ''A''] = Some res"
    have I0: "?I 0 [''A'', ''$''] [1, 0] [new_node ''$'', new_node ''A'']" by simp
    from analyze_loop_invariant[where I = ?I, OF a I0 step]
    have c: "case fst res of
       Inl e \<Rightarrow> (\<exists>i st ts h. ?I i st ts h \<and> i < length [''a''] \<and> analyze_step tbl_loop [''a''] i st ts h = Inl e)
     | Inr (st', ts', h') \<Rightarrow> (\<exists>i'. ?I i' st' ts' h' \<and> \<not> i' < length [''a''])" by blast
    show False
    proof (cases "fst res")
      case (Inl e)
      with c obtain ts h where "ts \<noteq> []" "analyze_step tbl_loop [''a''] 0 [''A'', ''$''] ts h = Inl e"
        by auto
      then show False
        by (cases ts) (auto simp: analyze_step_def tbl_loop_def cell_get_def symbols_def split: if_splits prod.splits)
    next
      case (Inr x)
      with c show False by (auto split: prod.splits)
    qed
  qed
  then show ?thesis by (auto simp: analyze_def symbols_def split: option.splits)
qed

lemmas analyze_eval =
  analyze_def analyze_loop.simps analyze_step_def symbols_def cell_get_def new_node_def
  set_children_def

text \<open>
  Claim C1. The claim says that an accepted call returns the node created for the
  start symbol, and for \<open>S -> aB; B -> b\<close> on \<open>ab\<close> followed by the end-marker the
  tree \<open>S(a, B(b))\<close>. The code returns \<open>tree_stack[0]\<close>, which is the node created
  for \<open>$\<close>: on that input the call succeeds and the returned tree is the bare
  \<open>$\<close> node. (In the final store the \<open>S\<close> node is \<open>S(a(b), B)\<close>: the children of
  \<open>B\<close> were attached to the node of \<open>a\<close>.)
\<close>

theorem analyze_SaB_returns_end_marker_node:
  "analyze tbl_SaB ''ab$'' ''S'' = Some (Inr (0, store_SaB), tbl_SaB)
   \<and> returned_tree (0, store_SaB) = Some (ParseTree ''$'' [])
   \<and> tree_of 5 store_SaB 1
       = Some (ParseTree ''S'' [ParseTree ''a'' [ParseTree ''b'' []], ParseTree ''B'' []])"
proof -
  have "analyze tbl_SaB ''ab$'' ''S'' = Some (Inr (0, store_SaB), tbl_SaB)"
    by (simp add: analyze_eval tbl_SaB_def store_SaB_def)
  moreover have "returned_tree (0, store_SaB) = Some (ParseTree ''$'' [])"
    by (simp add: returned_tree_def store_SaB_def eval_nat_numeral)
  moreover have "tree_of 5 store_SaB 1
       = Some (ParseTree ''S'' [ParseTree ''a'' [ParseTree ''b'' []], ParseTree ''B'' []])"
    by (simp add: store_SaB_def eval_nat_numeral)
  ultimately show ?thesis by blast
qed

text \<open>
  Claim C2. The claim says that the leaves of the returned tree spell the input.
  For the accepted input \<open>ab$\<close> the returned tree has the single leaf \<open>$\<close>, which
  is neither the input with its end-marker nor the input without it.
\<close>

theorem analyze_SaB_leaves_not_input:
  "map_option leaves (returned_tree (0, store_SaB)) = Some [''$'']
   \<and> [''$''] \<noteq> symbols ''ab$'' \<and> [''$''] \<noteq> symbols ''ab''"
  by (simp add: returned_tree_def store_SaB_def eval_nat_numeral symbols_def)

text \<open>
  Claim C9. A call of \<open>analyze\<close> that returns or raises leaves the table object as
  it was: its cells, its terminal set and its non-terminal set are unchanged, and
  a later call on the table behaves as on the table before the call.
\<close>

theorem analyze_leaves_table_unchanged:
  assumes "analyze self input_string start = Some (r, self')"
  shows "cells self' = cells self \<and> tbl_terminals self' = tbl_terminals self
    \<and> tbl_non_terminals self' = tbl_non_terminals self
    \<and> analyze self' input_string2 start2 = analyze self input_string2 start2"
  using analyze_frame[OF assms] by simp

theorem analyze_leaves_table_unchanged_witness:
  "analyze tbl_SaB ''ba$'' ''S'' = Some (Inl SyntaxError, tbl_SaB)
   \<and> analyze tbl_SaB ''ab$'' ''S'' = Some (Inr (0, store_SaB), tbl_SaB)"
proof -
  have 1: "analyze tbl_SaB ''ba$'' ''S'' = Some (Inl SyntaxError, tbl_SaB)"
    by (simp add: analyze_eval tbl_SaB_def)
  have 2: "analyze tbl_SaB ''ab$'' ''S'' = Some (Inr (0, store_SaB), tbl_SaB)"
    by (simp add: analyze_eval tbl_SaB_def store_SaB_def)
  from analyze_leaves_table_unchanged[OF 1, of "''ab$''" "''S''"] 1 2
  show ?thesis by simp
qed

text \<open>
  Claim C10, as stated: on every input without \<open>$\<close> the call raises
  \<open>SyntaxError\<close>. On the table \<open>tbl_loop\<close>, input \<open>a\<close> and start \<open>A\<close> the loop
  replaces \<open>A\<close> by \<open>A\<close> for ever and the call does not return at all.
\<close>

theorem analyze_without_end_marker_diverges:
  "CHR ''$'' \<notin> set ''a'' \<and> analyze tbl_loop ''a'' ''A'' = None"
  using analyze_tbl_loop by simp

text \<open>
  Claim C10, amended: on an input without \<open>$\<close> the call never returns a tree;
  whenever it terminates it raises \<open>SyntaxError\<close>, and on the empty input it
  does so at once.
\<close>

theorem analyze_without_end_marker:
  assumes "CHR ''$'' \<notin> set input_string"
  shows "(\<forall>r self'. analyze self input_string start = Some (r, self') \<longrightarrow> r = Inl SyntaxError)
    \<and> analyze self '''' start = Some (Inl SyntaxError, self)"
proof -
  have "analyze self '''' start = Some (Inl SyntaxError, self)"
    by (simp add: analyze_def analyze_loop.simps symbols_def)
  with analyze_no_end_marker[OF assms] show ?thesis by blast
qed

theorem analyze_without_end_marker_witness:
  "CHR ''$'' \<notin> set ''ab'' \<and> analyze tbl_SaB ''ab'' ''S'' = Some (Inl SyntaxError, tbl_SaB)"
proof -
  have 1: "CHR ''$'' \<notin> set ''ab''" by simp
  have 2: "analyze tbl_SaB ''ab'' ''S'' = Some (Inl SyntaxError, tbl_SaB)"
    by (simp add: analyze_eval tbl_SaB_def)
  from analyze_without_end_marker[OF 1, of tbl_SaB "''S''"] 1 2 show ?thesis by simp
qed

section \<open>Properties of \<open>Grammar.__init__\<close>\<close>

lemma check_body_eq:
  "check_body ts nts r =
     (if \<exists>s \<in> set r. s \<notin> ts \<and> s \<notin> set nts then Inl ValueError else Inr ())"
  by (induction r) auto

lemma check_rhs_eq:
  "check_rhs ts nts rhs =
     (if \<exists>r \<in> set rhs. \<exists>s \<in> set (symbols r). s \<notin> ts \<and> s \<notin> set nts
      then Inl ValueError else Inr ())"
  by (induction rhs) (auto simp: check_body_eq)

lemma check_productions_eq:
  "check_productions ts nts prods =
     (if \<exists>(nt, rhs) \<in> set prods.
           rhs = [] \<or> (\<exists>r \<in> set rhs. \<exists>s \<in> set (symbols r). s \<notin> ts \<and> s \<notin> set nts)
      then Inl ValueError else Inr ())"
proof (induction prods)
  case Nil
  show ?case by simp
next
  case (Cons p prods)
  obtain nt rhs where p: "p = (nt, rhs)" by (cases p)
  show ?case unfolding p by (simp add: Cons.IH check_rhs_eq)
qed

lemma Grammar_init_raises_eq:
  "Grammar_init ts nts prods ax =
     (if invalid_input ts nts prods ax then Inl ValueError
      else Inr \<lparr>terminals = ts, non_terminals = nts, productions = prods, axiom = ax,
                first_cache = Map.empty, follow_cache = empty_follow nts\<rparr>)"
proof (cases "ts \<inter> set nts \<noteq> {} \<or> ax \<notin> set nts \<or> set (map fst prods) \<noteq> set nts")
  case True
  then show ?thesis by (auto simp: Grammar_init_def invalid_input_def)
next
  case False
  then have keys: "set (map fst prods) = set nts" by simp
  have eq: "(\<exists>nt \<in> set nts. (nt, []) \<in> set prods) \<longleftrightarrow> (\<exists>(nt, rhs) \<in> set prods. rhs = [])"
    using keys by force
  have "invalid_input ts nts prods ax \<longleftrightarrow>
     (\<exists>(nt, rhs) \<in> set prods.
           rhs = [] \<or> (\<exists>r \<in> set rhs. \<exists>s \<in> set (symbols r). s \<notin> ts \<and> s \<notin> set nts))"
    unfolding invalid_input_def eq using False by auto
  with False show ?thesis
    by (simp add: Grammar_init_def check_productions_eq)
qed

text \<open>
  Claim C8. Construction raises the validation error \<open>ValueError\<close> exactly when one
  of the five conditions holds, and otherwise succeeds with the four values stored,
  an empty FIRST cache and an empty FOLLOW set for every non-terminal.
\<close>

theorem Grammar_init_raises_iff:
  "Grammar_init ts nts prods ax =
     (if invalid_input ts nts prods ax then Inl ValueError
      else Inr \<lparr>terminals = ts, non_terminals = nts, productions = prods, axiom = ax,
                first_cache = Map.empty, follow_cache = empty_follow nts\<rparr>)"
  by (rule Grammar_init_raises_eq)

theorem Grammar_init_raises_iff_witness:
  "\<not> invalid_input {''a'', ''b''} [''S'', ''B''] [(''S'', [''aB'']), (''B'', [''b''])] ''S''
   \<and> Grammar_init {''a'', ''b''} [''S'', ''B''] [(''S'', [''aB'']), (''B'', [''b''])] ''S''
       = Inr \<lparr>terminals = {''a'', ''b''}, non_terminals = [''S'', ''B''],
              productions = [(''S'', [''aB'']), (''B'', [''b''])], axiom = ''S'',
              first_cache = Map.empty, follow_cache = empty_follow [''S'', ''B'']\<rparr>
   \<and> invalid_input {''a'', ''b''} [''S'', ''B''] [(''S'', [''aB'']), (''B'', [])] ''S''
   \<and> Grammar_init {''a'', ''b''} [''S'', ''B''] [(''S'', [''aB'']), (''B'', [])] ''S''
       = Inl ValueError"
proof -
  have 1: "\<not> invalid_input {''a'', ''b''} [''S'', ''B''] [(''S'', [''aB'']), (''B'', [''b''])] ''S''"
    by (simp add: invalid_input_def symbols_def)
  have 2: "invalid_input {''a'', ''b''} [''S'', ''B''] [(''S'', [''aB'']), (''B'', [])] ''S''"
    by (simp add: invalid_input_def symbols_def)
  from 1 2
    Grammar_init_raises_iff[of "{''a'', ''b''}" "[''S'', ''B'']" "[(''S'', [''aB'']), (''B'', [''b''])]" "''S''"]
    Grammar_init_raises_iff[of "{''a'', ''b''}" "[''S'', ''B'']" "[(''S'', [''aB'']), (''B'', [])]" "''S''"]
  show ?thesis by simp
qed

section \<open>FIRST and FOLLOW of the example grammar\<close>

lemmas first_eval = compute_first_def first_fuel.simps ensure_cached_def symbols_def

lemmas follow_eval =
  compute_follow_def follow_while.simps follow_pass_def follow_update_def
  first_omega_of_def empty_follow_def

text \<open>
  Claim C4. For the grammar \<open>E -> TX; X -> +E | \<epsilon>; T -> iY | (E); Y -> *T | \<epsilon>\<close>
  with axiom \<open>E\<close>, which construction accepts, \<open>compute_first(["E"])\<close> is \<open>{i, (}\<close>,
  \<open>compute_first(["X"])\<close> is \<open>{\<epsilon>, +}\<close>, and \<open>compute_follow\<close> of \<open>E\<close> and of \<open>X\<close>
  is \<open>{$, )}\<close>.
\<close>

theorem first_follow_scenario:
  "Grammar_init {''+'', ''*'', ''i'', ''('', '')''} [''E'', ''X'', ''T'', ''Y'']
       [(''E'', [''TX'']), (''X'', [''+E'', '''']), (''T'', [''iY'', ''(E)'']),
        (''Y'', [''*T'', ''''])] ''E''
     = Inr (g_E [''E'', ''X'', ''T'', ''Y''])
   \<and> map_option fst (compute_first (g_E [''E'', ''X'', ''T'', ''Y'']) [''E''])
       = Some (Inr {''i'', ''(''})
   \<and> map_option fst (compute_first (g_E [''E'', ''X'', ''T'', ''Y'']) [''X''])
       = Some (Inr {'''', ''+''})
   \<and> map_option fst (compute_follow (g_E [''E'', ''X'', ''T'', ''Y'']) ''E'')
       = Some (Inr {''$'', '')''})
   \<and> map_option fst (compute_follow (g_E [''E'', ''X'', ''T'', ''Y'']) ''X'')
       = Some (Inr {''$'', '')''})"
proof -
  have "Grammar_init {''+'', ''*'', ''i'', ''('', '')''} [''E'', ''X'', ''T'', ''Y'']
       [(''E'', [''TX'']), (''X'', [''+E'', '''']), (''T'', [''iY'', ''(E)'']),
        (''Y'', [''*T'', ''''])] ''E''
     = Inr (g_E [''E'', ''X'', ''T'', ''Y''])"
    by (simp add: Grammar_init_def g_E_def symbols_def)
  moreover have "map_option fst (compute_first (g_E [''E'', ''X'', ''T'', ''Y'']) [''E''])
       = Some (Inr {''i'', ''(''})"
    by (simp add: first_eval g_E_def insert_commute)
  moreover have "map_option fst (compute_first (g_E [''E'', ''X'', ''T'', ''Y'']) [''X''])
       = Some (Inr {'''', ''+''})"
    by (simp add: first_eval g_E_def insert_commute)
  moreover have "map_option fst (compute_follow (g_E [''E'', ''X'', ''T'', ''Y'']) ''E'')
       = Some (Inr {''$'', '')''})"
    by (simp add: first_eval follow_eval g_E_def insert_commute)
  moreover have "map_option fst (compute_follow (g_E [''E'', ''X'', ''T'', ''Y'']) ''X'')
       = Some (Inr {''$'', '')''})"
    by (simp add: first_eval follow_eval g_E_def insert_commute)
  ultimately show ?thesis by blast
qed

section \<open>Properties of FIRST and FOLLOW\<close>

declare first_fuel.simps [simp del]

lemma map_le_upd_new: "c k = None \<Longrightarrow> c \<subseteq>\<^sub>m c(k \<mapsto> v)"
  by (auto simp: map_le_def)

lemma body_symbols_mem:
  "(h, bs) \<in> set (productions g) \<Longrightarrow> b \<in> set bs \<Longrightarrow> set (symbols b) \<subseteq> body_symbols g"
  by (auto simp: body_symbols_def)

lemma valid_body_symbols:
  "valid_grammar g \<Longrightarrow> body_symbols g \<subseteq> terminals g \<union> set (non_terminals g)"
  by (fastforce simp: valid_grammar_def invalid_input_def body_symbols_def)

text \<open>fill_first: the entry of symbol grows, nothing else in the old cache changes\<close>

lemma fill_first_sound:
  assumes rec: "first_sound g rec"
    and run: "fill_first rec symbol bodies c = Some (r, c')"
    and sym: "c symbol = Some old"
    and bodies: "\<forall>b \<in> set bodies. set (symbols b) \<subseteq> body_symbols g"
  shows "(\<forall>k. k \<noteq> symbol \<longrightarrow> k \<in> dom c \<longrightarrow> c' k = c k)
     \<and> (\<exists>new. c' symbol = Some new \<and> old \<subseteq> new)
     \<and> dom c' \<subseteq> dom c \<union> set (non_terminals g)
     \<and> (cache_ok g c \<longrightarrow> cache_ok g c')
     \<and> (valid_grammar g \<longrightarrow> r = Inr ())"
  using run sym bodies
proof (induction bodies arbitrary: c old)
  case Nil
  then show ?case by auto
next
  case (Cons b bodies)
  from Cons.prems(1,2) obtain r1 c1 where rc: "rec c (symbols b) = Some (r1, c1)"
    by (auto split: option.splits)
  from rec rc have fr: "c \<subseteq>\<^sub>m c1" "dom c1 \<subseteq> dom c \<union> set (non_terminals g)"
    and ok: "cache_ok g c \<Longrightarrow> cache_ok g c1
             \<and> (\<forall>S. r1 = Inr S \<longrightarrow> finite S \<and> S \<subseteq> insert '''' (terminals g \<inter> (body_symbols g \<union> set (symbols b))))"
    and ne: "valid_grammar g \<Longrightarrow> set (symbols b) \<subseteq> terminals g \<union> set (non_terminals g) \<Longrightarrow> \<exists>S. r1 = Inr S"
    unfolding first_sound_def by blast+
  from fr(1) Cons.prems(2) have c1sym: "c1 symbol = Some old"
    by (auto simp: map_le_def dom_def)
  have bsub: "set (symbols b) \<subseteq> body_symbols g" using Cons.prems(3) by simp
  show ?case
  proof (cases r1)
    case (Inl e)
    with Cons.prems(1,2) rc have res: "r = Inl e" "c' = c1" by auto
    have "\<not> valid_grammar g" using ne Inl bsub valid_body_symbols[of g] by auto
    with res fr c1sym ok show ?thesis by (auto simp: map_le_def dom_def)
  next
    case (Inr fs)
    let ?c2 = "c1(symbol \<mapsto> old \<union> fs)"
    from Cons.prems(1,2) rc Inr have run2: "fill_first rec symbol bodies ?c2 = Some (r, c')"
      by simp
    have s2: "?c2 symbol = Some (old \<union> fs)" by simp
    have b2: "\<forall>b \<in> set bodies. set (symbols b) \<subseteq> body_symbols g"
      using Cons.prems(3) by simp
    note all = Cons.IH[OF run2 s2 b2]
    have IH: "(\<forall>k. k \<noteq> symbol \<longrightarrow> k \<in> dom ?c2 \<longrightarrow> c' k = ?c2 k)"
      "(\<exists>new. c' symbol = Some new \<and> old \<union> fs \<subseteq> new)"
      "dom c' \<subseteq> dom ?c2 \<union> set (non_terminals g)"
      "cache_ok g ?c2 \<longrightarrow> cache_ok g c'"
      "valid_grammar g \<longrightarrow> r = Inr ()"
      using all by blast+
    have a: "\<forall>k. k \<noteq> symbol \<longrightarrow> k \<in> dom c \<longrightarrow> c' k = c k"
      using IH(1) fr(1) by (auto simp: map_le_def dom_def)
    have b: "dom c' \<subseteq> dom c \<union> set (non_terminals g)"
      using IH(3) fr(2) Cons.prems(2) by auto
    have c: "cache_ok g c \<longrightarrow> cache_ok g c'"
    proof
      assume okc: "cache_ok g c"
      with ok Inr have ok1: "cache_ok g c1" and fsf: "finite fs"
        "fs \<subseteq> insert '''' (terminals g \<inter> (body_symbols g \<union> set (symbols b)))" by auto
      from fsf(2) bsub have "fs \<subseteq> insert '''' (terminals g \<inter> body_symbols g)" by auto
      moreover from okc Cons.prems(2) have "finite old" "old \<subseteq> insert '''' (terminals g \<inter> body_symbols g)"
        by (auto simp: cache_ok_def)
      ultimately have "cache_ok g ?c2" using ok1 fsf(1) by (auto simp: cache_ok_def)
      with IH(4) show "cache_ok g c'" by simp
    qed
    from a b c IH(2,5) show ?thesis by auto
  qed
qed

lemma valid_map_of:
  assumes "valid_grammar g" "A \<in> set (non_terminals g)"
  shows "\<exists>bs. map_of (productions g) A = Some bs"
proof -
  from assms have "A \<in> fst ` set (productions g)"
    by (auto simp: valid_grammar_def invalid_input_def)
  then show ?thesis by (cases "map_of (productions g) A") (auto simp: map_of_eq_None_iff)
qed

lemma ensure_cached_sound:
  assumes rec: "first_sound g rec"
    and run: "ensure_cached rec g symbol c = Some (r, c')"
    and nt: "symbol \<in> set (non_terminals g)"
  shows "c \<subseteq>\<^sub>m c' \<and> dom c' \<subseteq> dom c \<union> set (non_terminals g) \<and> symbol \<in> dom c'
     \<and> (cache_ok g c \<longrightarrow> cache_ok g c') \<and> (valid_grammar g \<longrightarrow> r = Inr ())"
proof (cases "c symbol")
  case (Some fs)
  with run show ?thesis by (auto simp: ensure_cached_def)
next
  case None
  let ?c1 = "c(symbol \<mapsto> {})"
  have le1: "c \<subseteq>\<^sub>m ?c1" using None by (rule map_le_upd_new)
  have ok1: "cache_ok g c \<Longrightarrow> cache_ok g ?c1" by (auto simp: cache_ok_def)
  show ?thesis
  proof (cases "map_of (productions g) symbol")
    case N2: None
    with None run have "r = Inl KeyError" "c' = ?c1" by (auto simp: ensure_cached_def)
    moreover have "\<not> valid_grammar g" using valid_map_of[OF _ nt] N2 by auto
    ultimately show ?thesis using le1 ok1 nt by auto
  next
    case (Some bodies)
    with None run have run1: "fill_first rec symbol bodies ?c1 = Some (r, c')"
      by (auto simp: ensure_cached_def)
    have bs: "\<forall>b \<in> set bodies. set (symbols b) \<subseteq> body_symbols g"
      using map_of_SomeD[OF Some] body_symbols_mem by blast
    have s1: "?c1 symbol = Some {}" by simp
    note f = fill_first_sound[OF rec run1 s1 bs]
    have f1: "\<forall>k. k \<noteq> symbol \<longrightarrow> k \<in> dom ?c1 \<longrightarrow> c' k = ?c1 k"
      by (rule f[THEN conjunct1])
    obtain new where f2: "c' symbol = Some new"
      using f[THEN conjunct2, THEN conjunct1] by (elim exE conjE)
    have f3: "dom c' \<subseteq> dom ?c1 \<union> set (non_terminals g)"
      by (rule f[THEN conjunct2, THEN conjunct2, THEN conjunct1])
    have f4: "cache_ok g ?c1 \<longrightarrow> cache_ok g c'"
      by (rule f[THEN conjunct2, THEN conjunct2, THEN conjunct2, THEN conjunct1])
    have f5: "valid_grammar g \<longrightarrow> r = Inr ()"
      by (rule f[THEN conjunct2, THEN conjunct2, THEN conjunct2, THEN conjunct2])
    have "c \<subseteq>\<^sub>m c'"
      unfolding map_le_def
    proof
      fix k assume k: "k \<in> dom c"
      with None have "k \<noteq> symbol" by auto
      moreover from k have "k \<in> dom ?c1" by simp
      ultimately have "c' k = ?c1 k" using f1 by blast
      with \<open>k \<noteq> symbol\<close> show "c k = c' k" by simp
    qed
    moreover have "dom c' \<subseteq> dom c \<union> set (non_terminals g)"
    proof
      fix k assume "k \<in> dom c'"
      with f3 have "k \<in> dom ?c1 \<or> k \<in> set (non_terminals g)" by blast
      then show "k \<in> dom c \<union> set (non_terminals g)"
        using nt by (cases "k = symbol") auto
    qed
    moreover have "symbol \<in> dom c'" using f2 by (simp add: domI)
    moreover have "cache_ok g c \<longrightarrow> cache_ok g c'" using f4 ok1 by (intro impI) simp
    ultimately show ?thesis using f5 by (intro conjI)
  qed
qed

lemma first_loop_sound:
  assumes rec: "first_sound g rec"
    and run: "first_loop rec g seq fs c = Some (r, c')"
  shows "c \<subseteq>\<^sub>m c' \<and> dom c' \<subseteq> dom c \<union> set (non_terminals g)
     \<and> (cache_ok g c \<longrightarrow> cache_ok g c'
          \<and> (\<forall>S. r = Inr S \<longrightarrow> (finite fs \<longrightarrow> finite S)
                 \<and> S \<subseteq> fs \<union> insert '''' (terminals g \<inter> (body_symbols g \<union> set seq))))
     \<and> (valid_grammar g \<longrightarrow> set seq \<subseteq> terminals g \<union> set (non_terminals g) \<longrightarrow> (\<exists>S. r = Inr S))"
  using run
proof (induction seq arbitrary: fs c)
  case Nil
  then show ?case by auto
next
  case (Cons symbol rest)
  show ?case
  proof (cases "symbol \<in> terminals g")
    case True
    with Cons.prems show ?thesis by auto
  next
    case notT: False
    show ?thesis
    proof (cases "symbol \<in> set (non_terminals g)")
      case False
      with notT Cons.prems show ?thesis by auto
    next
      case nt: True
      from Cons.prems notT nt obtain r1 c1 where
        en: "ensure_cached rec g symbol c = Some (r1, c1)"
        by (auto split: option.splits)
      note e = ensure_cached_sound[OF rec en nt]
      show ?thesis
      proof (cases r1)
        case (Inl err)
        with Cons.prems notT nt en have "r = Inl err" "c' = c1" by auto
        with e Inl show ?thesis by auto
      next
        case (Inr u)
        from e obtain S1 where c1: "c1 symbol = Some S1" by auto
        have S1ok: "cache_ok g c \<Longrightarrow> finite S1 \<and> S1 \<subseteq> insert '''' (terminals g \<inter> body_symbols g)"
          using e c1 by (auto simp: cache_ok_def)
        show ?thesis
        proof (cases "'''' \<in> S1")
          case False
          with Cons.prems notT nt en Inr c1
          have "r = Inr (fs \<union> (S1 - {''''}))" "c' = c1" by auto
          with e S1ok show ?thesis by auto
        next
          case True
          let ?fs' = "if rest = [] then insert '''' (fs \<union> (S1 - {''''})) else fs \<union> (S1 - {''''})"
          from Cons.prems notT nt en Inr c1 True
          have run2: "first_loop rec g rest ?fs' c1 = Some (r, c')" by auto
          note IH = Cons.IH[OF run2]
          have "c \<subseteq>\<^sub>m c'" using e IH by (blast intro: map_le_trans)
          moreover have "dom c' \<subseteq> dom c \<union> set (non_terminals g)" using e IH by blast
          moreover have "cache_ok g c \<longrightarrow> cache_ok g c'
              \<and> (\<forall>S. r = Inr S \<longrightarrow> (finite fs \<longrightarrow> finite S)
                 \<and> S \<subseteq> fs \<union> insert '''' (terminals g \<inter> (body_symbols g \<union> set (symbol # rest))))"
          proof
            assume okc: "cache_ok g c"
            with e have ok1: "cache_ok g c1" by blast
            from S1ok[OF okc] have fin: "finite S1"
              and sub: "S1 \<subseteq> insert '''' (terminals g \<inter> body_symbols g)" by auto
            from IH ok1 have okc': "cache_ok g c'"
              and res: "\<forall>S. r = Inr S \<longrightarrow> (finite ?fs' \<longrightarrow> finite S)
                 \<and> S \<subseteq> ?fs' \<union> insert '''' (terminals g \<inter> (body_symbols g \<union> set rest))"
              by blast+
            have "(finite fs \<longrightarrow> finite S)
                 \<and> S \<subseteq> fs \<union> insert '''' (terminals g \<inter> (body_symbols g \<union> set (symbol # rest)))"
              if "r = Inr S" for S
            proof -
              from res that have 1: "finite ?fs' \<longrightarrow> finite S"
                and 2: "S \<subseteq> ?fs' \<union> insert '''' (terminals g \<inter> (body_symbols g \<union> set rest))"
                by blast+
              have "finite fs \<longrightarrow> finite ?fs'" using fin by auto
              with 1 have "finite fs \<longrightarrow> finite S" by blast
              moreover have "?fs' \<subseteq> fs \<union> insert '''' (terminals g \<inter> body_symbols g)"
                using sub by auto
              with 2 have "S \<subseteq> fs \<union> insert '''' (terminals g \<inter> (body_symbols g \<union> set (symbol # rest)))"
                by auto
              ultimately show ?thesis by blast
            qed
            with okc' show "cache_ok g c'
              \<and> (\<forall>S. r = Inr S \<longrightarrow> (finite fs \<longrightarrow> finite S)
                 \<and> S \<subseteq> fs \<union> insert '''' (terminals g \<inter> (body_symbols g \<union> set (symbol # rest))))"
              by blast
          qed
          moreover have "valid_grammar g \<longrightarrow>
              set (symbol # rest) \<subseteq> terminals g \<union> set (non_terminals g) \<longrightarrow> (\<exists>S. r = Inr S)"
            using IH by auto
          ultimately show ?thesis by blast
        qed
      qed
    qed
  qed
qed

lemma first_fuel_sound: "first_sound g (first_fuel n g)"
proof (induction n)
  case 0
  show ?case by (simp add: first_sound_def first_fuel.simps)
next
  case (Suc n)
  show ?case
    unfolding first_sound_def
  proof (intro allI impI)
    fix c seq r c'
    assume run: "first_fuel (Suc n) g c seq = Some (r, c')"
    show "c \<subseteq>\<^sub>m c' \<and> dom c' \<subseteq> dom c \<union> set (non_terminals g)
        \<and> (cache_ok g c \<longrightarrow> cache_ok g c'
             \<and> (\<forall>S. r = Inr S \<longrightarrow> finite S \<and> S \<subseteq> insert '''' (terminals g \<inter> (body_symbols g \<union> set seq))))
        \<and> (valid_grammar g \<longrightarrow> set seq \<subseteq> terminals g \<union> set (non_terminals g) \<longrightarrow> (\<exists>S. r = Inr S))"
    proof (cases "seq = []")
      case True
      with run show ?thesis by (auto simp: first_fuel.simps)
    next
      case False
      with run have "first_loop (first_fuel n g) g seq {} c = Some (r, c')"
        by (simp add: first_fuel.simps)
      from first_loop_sound[OF Suc this] show ?thesis by auto
    qed
  qed
qed

lemma uncached_mono: "dom c \<subseteq> dom c' \<Longrightarrow> uncached g c' \<le> uncached g c"
  unfolding uncached_def by (rule card_mono) auto

lemma uncached_le: "c \<subseteq>\<^sub>m c' \<Longrightarrow> uncached g c' \<le> uncached g c"
  by (rule uncached_mono) (rule map_le_implies_dom_le)

lemma uncached_upd_less:
  assumes "symbol \<in> set (non_terminals g)" "c symbol = None"
  shows "uncached g (c(symbol \<mapsto> v)) < uncached g c"
  unfolding uncached_def
proof (rule psubset_card_mono)
  show "finite (set (non_terminals g) - dom c)" by simp
  have "symbol \<in> set (non_terminals g) - dom c" using assms by (simp add: domIff)
  moreover have "symbol \<notin> set (non_terminals g) - dom (c(symbol \<mapsto> v))" by simp
  moreover have "set (non_terminals g) - dom (c(symbol \<mapsto> v)) \<subseteq> set (non_terminals g) - dom c"
    by auto
  ultimately show "set (non_terminals g) - dom (c(symbol \<mapsto> v)) \<subset> set (non_terminals g) - dom c"
    by blast
qed

lemma uncached_upd_le: "uncached g (c(symbol \<mapsto> v)) \<le> uncached g c"
  by (rule uncached_mono) auto

lemma fill_first_total:
  assumes rec: "first_sound g rec" and tot: "first_total g n rec"
  shows "uncached g c < n \<Longrightarrow> c symbol = Some old \<Longrightarrow> fill_first rec symbol bodies c \<noteq> None"
proof (induction bodies arbitrary: c old)
  case Nil
  show ?case by simp
next
  case (Cons b bodies)
  from tot Cons.prems(1) have "rec c (symbols b) \<noteq> None"
    unfolding first_total_def by blast
  then obtain r1 c1 where rc: "rec c (symbols b) = Some (r1, c1)"
    by (cases "rec c (symbols b)") auto
  from rec rc have le: "c \<subseteq>\<^sub>m c1" unfolding first_sound_def by blast
  show ?case
  proof (cases r1)
    case (Inl e)
    with rc Cons.prems(2) show ?thesis by simp
  next
    case (Inr fs)
    have "uncached g (c1(symbol \<mapsto> old \<union> fs)) \<le> uncached g c1" by (rule uncached_upd_le)
    also have "\<dots> \<le> uncached g c" using le by (rule uncached_le)
    finally have "uncached g (c1(symbol \<mapsto> old \<union> fs)) < n" using Cons.prems(1) by simp
    moreover have "(c1(symbol \<mapsto> old \<union> fs)) symbol = Some (old \<union> fs)" by simp
    ultimately have "fill_first rec symbol bodies (c1(symbol \<mapsto> old \<union> fs)) \<noteq> None"
      by (rule Cons.IH)
    with rc Inr Cons.prems(2) show ?thesis by simp
  qed
qed

lemma ensure_cached_total:
  assumes rec: "first_sound g rec" and tot: "first_total g n rec"
    and u: "uncached g c \<le> n" and nt: "symbol \<in> set (non_terminals g)"
  shows "ensure_cached rec g symbol c \<noteq> None"
proof (cases "c symbol")
  case (Some fs)
  then show ?thesis by (simp add: ensure_cached_def)
next
  case None
  show ?thesis
  proof (cases "map_of (productions g) symbol")
    case N2: None
    with None show ?thesis by (simp add: ensure_cached_def)
  next
    case (Some bodies)
    have "uncached g (c(symbol \<mapsto> {})) < uncached g c" using nt None by (rule uncached_upd_less)
    with u have "uncached g (c(symbol \<mapsto> {})) < n" by simp
    moreover have "(c(symbol \<mapsto> {})) symbol = Some {}" by simp
    ultimately have "fill_first rec symbol bodies (c(symbol \<mapsto> {})) \<noteq> None"
      by (rule fill_first_total[OF rec tot])
    with None Some show ?thesis by (simp add: ensure_cached_def)
  qed
qed

lemma first_loop_total:
  assumes rec: "first_sound g rec" and tot: "first_total g n rec"
  shows "uncached g c \<le> n \<Longrightarrow> first_loop rec g seq fs c \<noteq> None"
proof (induction seq arbitrary: fs c)
  case Nil
  show ?case by simp
next
  case (Cons symbol rest)
  show ?case
  proof (cases "symbol \<in> terminals g \<or> symbol \<notin> set (non_terminals g)")
    case True
    then show ?thesis by auto
  next
    case False
    then have nt: "symbol \<in> set (non_terminals g)" and notT: "symbol \<notin> terminals g" by auto
    from ensure_cached_total[OF rec tot Cons.prems nt]
    obtain r1 c1 where en: "ensure_cached rec g symbol c = Some (r1, c1)"
      by (cases "ensure_cached rec g symbol c") auto
    from ensure_cached_sound[OF rec en nt] have le: "c \<subseteq>\<^sub>m c1" by (rule conjunct1)
    have u1: "uncached g c1 \<le> n" using uncached_le[OF le, of g] Cons.prems by simp
    show ?thesis
    proof (cases r1)
      case (Inl e)
      with en nt notT show ?thesis by simp
    next
      case (Inr x)
      show ?thesis
      proof (cases "c1 symbol")
        case None
        with en nt notT Inr show ?thesis by simp
      next
        case (Some S1)
        show ?thesis
        proof (cases "'''' \<in> S1")
          case False
          with en nt notT Inr Some show ?thesis by simp
        next
          case True
          from Cons.IH[OF u1] en nt notT Inr Some True show ?thesis by simp
        qed
      qed
    qed
  qed
qed

lemma first_fuel_total: "uncached g c < n \<Longrightarrow> first_fuel n g c seq \<noteq> None"
proof (induction n arbitrary: c seq)
  case 0
  then show ?case by simp
next
  case (Suc n)
  have tot: "first_total g n (first_fuel n g)"
    unfolding first_total_def using Suc.IH by blast
  from Suc.prems have "uncached g c \<le> n" by simp
  from first_loop_total[OF first_fuel_sound tot this] show ?case
    by (simp add: first_fuel.simps)
qed

lemma uncached_le_length: "uncached g c \<le> length (non_terminals g)"
proof -
  have "uncached g c \<le> card (set (non_terminals g))"
    unfolding uncached_def by (rule card_mono) auto
  also have "\<dots> \<le> length (non_terminals g)" by (rule card_length)
  finally show ?thesis .
qed

lemma compute_first_total: "compute_first g sentence \<noteq> None"
proof -
  have "uncached g (first_cache g) < Suc (length (non_terminals g))"
    using uncached_le_length[of g "first_cache g"] by simp
  from first_fuel_total[OF this] show ?thesis
    by (auto simp: compute_first_def split: option.splits)
qed

lemma fill_first_le:
  assumes le: "first_le rec rec'"
  shows "fill_first rec symbol bodies c = Some x \<Longrightarrow> fill_first rec' symbol bodies c = Some x"
proof (induction bodies arbitrary: c)
  case Nil
  then show ?case by simp
next
  case (Cons b bodies)
  show ?case
  proof (cases "c symbol")
    case None
    with Cons.prems show ?thesis by simp
  next
    case (Some old)
    with Cons.prems obtain r1 c1 where rc: "rec c (symbols b) = Some (r1, c1)"
      by (auto split: option.splits)
    with le have rc': "rec' c (symbols b) = Some (r1, c1)" unfolding first_le_def by blast
    show ?thesis
    proof (cases r1)
      case (Inl e)
      with Cons.prems Some rc rc' show ?thesis by simp
    next
      case (Inr fs)
      with Cons.prems Some rc have "fill_first rec symbol bodies (c1(symbol \<mapsto> old \<union> fs)) = Some x"
        by simp
      then have "fill_first rec' symbol bodies (c1(symbol \<mapsto> old \<union> fs)) = Some x"
        by (rule Cons.IH)
      then show ?thesis by (simp add: Some rc' Inr)
    qed
  qed
qed

lemma ensure_cached_le:
  assumes le: "first_le rec rec'"
  shows "ensure_cached rec g symbol c = Some x \<Longrightarrow> ensure_cached rec' g symbol c = Some x"
  using fill_first_le[OF le]
  by (auto simp: ensure_cached_def split: option.splits if_splits)

lemma first_loop_le:
  assumes le: "first_le rec rec'"
  shows "first_loop rec g seq fs c = Some x \<Longrightarrow> first_loop rec' g seq fs c = Some x"
proof (induction seq arbitrary: fs c)
  case Nil
  then show ?case by simp
next
  case (Cons symbol rest)
  show ?case
  proof (cases "symbol \<in> terminals g \<or> symbol \<notin> set (non_terminals g)")
    case True
    with Cons.prems show ?thesis by auto
  next
    case False
    then have nt: "symbol \<in> set (non_terminals g)" and notT: "symbol \<notin> terminals g" by auto
    from Cons.prems nt notT obtain r1 c1 where en: "ensure_cached rec g symbol c = Some (r1, c1)"
      by (auto split: option.splits)
    from ensure_cached_le[OF le en] have en': "ensure_cached rec' g symbol c = Some (r1, c1)" .
    show ?thesis
    proof (cases r1)
      case (Inl e)
      with Cons.prems en en' nt notT show ?thesis by simp
    next
      case (Inr u)
      show ?thesis
      proof (cases "c1 symbol")
        case None
        with Cons.prems en en' nt notT Inr show ?thesis by simp
      next
        case (Some S1)
        show ?thesis
        proof (cases "'''' \<in> S1")
          case False
          with Cons.prems en en' nt notT Inr Some show ?thesis by simp
        next
          case True
          with Cons.prems en nt notT Inr Some
          have "first_loop rec g rest
                  (if rest = [] then insert '''' (fs \<union> (S1 - {''''})) else fs \<union> (S1 - {''''})) c1 = Some x"
            by simp
          from Cons.IH[OF this] en' nt notT Inr Some True show ?thesis by simp
        qed
      qed
    qed
  qed
qed

lemma first_fuel_Suc: "first_le (first_fuel n g) (first_fuel (Suc n) g)"
proof (induction n)
  case 0
  show ?case by (simp add: first_le_def first_fuel.simps)
next
  case (Suc n)
  show ?case
    unfolding first_le_def
  proof (intro allI impI)
    fix c seq x
    assume a: "first_fuel (Suc n) g c seq = Some x"
    show "first_fuel (Suc (Suc n)) g c seq = Some x"
    proof (cases "seq = []")
      case True
      with a show ?thesis by (simp add: first_fuel.simps)
    next
      case False
      with a have "first_loop (first_fuel n g) g seq {} c = Some x"
        by (simp add: first_fuel.simps)
      then have "first_loop (first_fuel (Suc n) g) g seq {} c = Some x"
        by (rule first_loop_le[OF Suc])
      with False show ?thesis by (subst first_fuel.simps) simp
    qed
  qed
qed

lemma first_fuel_mono:
  "first_fuel n g c seq = Some x \<Longrightarrow> first_fuel (n + k) g c seq = Some x"
proof (induction k)
  case 0
  then show ?case by simp
next
  case (Suc k)
  then have "first_fuel (n + k) g c seq = Some x" by simp
  with first_fuel_Suc[of "n + k" g] have "first_fuel (Suc (n + k)) g c seq = Some x"
    unfolding first_le_def by blast
  then show ?case by simp
qed

lemma follow_grows_refl: "follow_grows st st"
  by (simp add: follow_grows_def)

lemma follow_grows_trans:
  assumes "follow_grows a b" "follow_grows b c"
  shows "follow_grows a c"
proof -
  have "snd c \<and> \<not> snd a \<longrightarrow> follow_graph (fst a) \<subset> follow_graph (fst c)"
  proof
    assume h: "snd c \<and> \<not> snd a"
    show "follow_graph (fst a) \<subset> follow_graph (fst c)"
    proof (cases "snd b")
      case True
      with h assms(1) have "follow_graph (fst a) \<subset> follow_graph (fst b)"
        by (simp add: follow_grows_def)
      moreover from assms(2) have "follow_graph (fst b) \<subseteq> follow_graph (fst c)"
        by (simp add: follow_grows_def)
      ultimately show ?thesis by (rule psubset_subset_trans)
    next
      case False
      with assms(1) have "fst b = fst a" by (simp add: follow_grows_def)
      moreover from False h assms(2) have "follow_graph (fst b) \<subset> follow_graph (fst c)"
        by (simp add: follow_grows_def)
      ultimately show ?thesis by simp
    qed
  qed
  moreover have "dom (fst c) = dom (fst a)" using assms by (simp add: follow_grows_def)
  moreover have "follow_graph (fst a) \<subseteq> follow_graph (fst c)"
    using assms unfolding follow_grows_def by blast
  moreover have "snd a \<longrightarrow> snd c" using assms by (simp add: follow_grows_def)
  moreover have "\<not> snd c \<longrightarrow> fst c = fst a" using assms unfolding follow_grows_def by metis
  ultimately show ?thesis unfolding follow_grows_def by blast
qed

text \<open>adding new elements to one entry\<close>

lemma follow_graph_upd:
  assumes "fc A = Some S"
  shows "follow_graph (fc(A \<mapsto> S \<union> T)) = follow_graph fc \<union> {A} \<times> T"
  using assms by (auto simp: follow_graph_def split: if_splits)

lemma follow_grows_upd:
  assumes A: "fc A = Some S" and new: "\<not> T \<subseteq> S"
  shows "follow_grows (fc, ch) (fc(A \<mapsto> S \<union> T), True)"
proof -
  from new obtain x where x: "x \<in> T" "x \<notin> S" by blast
  have "(A, x) \<notin> follow_graph fc" using A x by (simp add: follow_graph_def)
  moreover have "(A, x) \<in> follow_graph fc \<union> {A} \<times> T" using x by simp
  ultimately have "follow_graph fc \<subset> follow_graph fc \<union> {A} \<times> T" by blast
  then have "follow_graph fc \<subset> follow_graph (fc(A \<mapsto> S \<union> T))"
    by (simp only: follow_graph_upd[of fc A S T, OF A])
  moreover have "dom (fc(A \<mapsto> S \<union> T)) = dom fc" using A by auto
  ultimately show ?thesis
    unfolding follow_grows_def by (simp add: psubset_imp_subset)
qed

lemma within_upd:
  assumes "within U fc" "T \<subseteq> U" "fc A = Some S"
  shows "within U (fc(A \<mapsto> S \<union> T))"
  using assms unfolding within_def by (auto split: if_splits)

lemma first_star_sub:
  "first_star g omega acc = Inr fo \<Longrightarrow>
     fo \<subseteq> acc \<union> insert '''' (universe g \<union> (set omega - set (non_terminals g)))"
proof (induction omega arbitrary: acc)
  case Nil
  then show ?case by auto
next
  case (Cons symb omega)
  show ?case
  proof (cases "symb \<in> set (non_terminals g)")
    case False
    with Cons.prems show ?thesis by auto
  next
    case True
    with Cons.prems obtain fs where fs: "first_cache g symb = Some fs"
      by (auto split: option.splits)
    have sub: "fs - {''''} \<subseteq> universe g" using True fs by (force simp: universe_def)
    show ?thesis
    proof (cases "'''' \<in> fs")
      case False
      with Cons.prems True fs sub show ?thesis by auto
    next
      case T2: True
      with Cons.prems True fs have "first_star g omega (acc \<union> (fs - {''''})) = Inr fo" by simp
      from Cons.IH[OF this] sub show ?thesis by auto
    qed
  qed
qed

lemma first_star_ok:
  assumes "\<forall>A \<in> set (non_terminals g). first_cache g A \<noteq> None"
  shows "\<exists>fo. first_star g omega acc = Inr fo"
proof (induction omega arbitrary: acc)
  case Nil
  show ?case by simp
next
  case (Cons symb omega)
  show ?case
  proof (cases "symb \<in> set (non_terminals g)")
    case False
    then show ?thesis by simp
  next
    case True
    with assms obtain fs where "first_cache g symb = Some fs" by auto
    with True Cons.IH show ?thesis by simp
  qed
qed

lemma first_omega_of_sub:
  "first_omega_of g omega = Inr fo \<Longrightarrow>
     fo \<subseteq> insert '''' (universe g \<union> (set omega - set (non_terminals g)))"
  using first_star_sub[of g omega "{}" fo]
  by (auto simp: first_omega_of_def split: if_splits)

lemma first_omega_of_ok:
  assumes "\<forall>A \<in> set (non_terminals g). first_cache g A \<noteq> None"
  shows "\<exists>fo. first_omega_of g omega = Inr fo"
  using first_star_ok[OF assms] by (simp add: first_omega_of_def)

lemma follow_ready_dom:
  "follow_ready g fc head \<Longrightarrow> dom fc' = dom fc \<Longrightarrow> follow_ready g fc' head"
  by (simp add: follow_ready_def)

lemma follow_update_props:
  assumes run: "follow_update g head A omega (fc, ch) = (r, fc', ch')"
  shows "follow_grows (fc, ch) (fc', ch')
     \<and> (within (universe g) fc \<longrightarrow> set omega - set (non_terminals g) \<subseteq> universe g \<longrightarrow> within (universe g) fc')
     \<and> (follow_ready g fc head \<longrightarrow> r = Inr ())"
proof (cases "A \<in> set (non_terminals g)")
  case False
  with run show ?thesis by (auto simp: follow_update_def follow_grows_refl)
next
  case nt: True
  show ?thesis
  proof (cases "first_omega_of g omega")
    case (Inl e)
    with run nt have "fc' = fc" "ch' = ch" "r = Inl e" by (auto simp: follow_update_def)
    moreover have "\<not> follow_ready g fc head"
      using first_omega_of_ok[of g omega] Inl by (auto simp: follow_ready_def)
    ultimately show ?thesis by (simp add: follow_grows_refl)
  next
    case (Inr fo)
    note fo_sub = first_omega_of_sub[OF Inr]
    show ?thesis
    proof (cases "fc A")
      case None
      with run nt Inr have "fc' = fc" "ch' = ch" by (auto simp: follow_update_def)
      moreover have "\<not> follow_ready g fc head" using None nt by (auto simp: follow_ready_def)
      ultimately show ?thesis by (simp add: follow_grows_refl)
    next
      case (Some fA)
      define fc1 where "fc1 = (if \<not> fo - {''''} \<subseteq> fA then fc(A \<mapsto> fA \<union> (fo - {''''})) else fc)"
      define ch1 where "ch1 = (if \<not> fo - {''''} \<subseteq> fA then True else ch)"
      have g1: "follow_grows (fc, ch) (fc1, ch1)"
        unfolding fc1_def ch1_def using follow_grows_upd[of fc A fA "fo - {''''}" ch, OF Some] by (simp add: follow_grows_refl)
      have w1: "within (universe g) fc1"
        if "within (universe g) fc" "set omega - set (non_terminals g) \<subseteq> universe g"
      proof -
        from fo_sub that(2) have "fo - {''''} \<subseteq> universe g" by auto
        with that(1) Some show ?thesis unfolding fc1_def by (simp add: within_upd)
      qed
      have d1: "dom fc1 = dom fc" using g1 by (simp add: follow_grows_def)
      obtain fA1 where fA1: "fc1 A = Some fA1"
        using Some unfolding fc1_def by (cases "fo - {''''} \<subseteq> fA") auto
      have run1: "(if '''' \<in> fo then
                (case fc1 head of
                   None \<Rightarrow> (Inl KeyError, fc1, ch1)
                 | Some fH \<Rightarrow>
                     (case fc1 A of
                        None \<Rightarrow> (Inl KeyError, fc1, ch1)
                      | Some fA1 \<Rightarrow>
                          if \<not> fH \<subseteq> fA1
                          then (Inr (), fc1(A \<mapsto> fA1 \<union> fH), True)
                          else (Inr (), fc1, ch1)))
              else (Inr (), fc1, ch1)) = (r, fc', ch')"
      proof (cases "fo - {''''} \<subseteq> fA")
        case True
        with run nt Inr Some show ?thesis
          unfolding fc1_def ch1_def follow_update_def by (auto split: if_splits)
      next
        case False
        with run nt Inr Some show ?thesis
          unfolding fc1_def ch1_def follow_update_def by (auto split: if_splits)
      qed
      show ?thesis
      proof (cases "'''' \<in> fo")
        case False
        with run1 have "fc' = fc1" "ch' = ch1" "r = Inr ()" by auto
        with g1 w1 show ?thesis by simp
      next
        case True
        show ?thesis
        proof (cases "fc1 head")
          case None
          with run1 True have "fc' = fc1" "ch' = ch1" by auto
          moreover have "\<not> follow_ready g fc head" using None d1 by (auto simp: follow_ready_def)
          ultimately show ?thesis using g1 w1 by simp
        next
          case (Some fH)
          show ?thesis
          proof (cases "fH \<subseteq> fA1")
            case T2: True
            with run1 True Some fA1 have "fc' = fc1" "ch' = ch1" "r = Inr ()" by auto
            with g1 w1 show ?thesis by simp
          next
            case False
            with run1 True Some fA1 have eq: "fc' = fc1(A \<mapsto> fA1 \<union> fH)" "ch' = True" "r = Inr ()"
              by auto
            have "follow_grows (fc1, ch1) (fc', ch')"
              unfolding eq using follow_grows_upd[of fc1 A fA1 fH ch1, OF fA1 False] .
            with g1 have "follow_grows (fc, ch) (fc', ch')" by (rule follow_grows_trans)
            moreover have "within (universe g) fc'"
              if "within (universe g) fc" "set omega - set (non_terminals g) \<subseteq> universe g"
            proof -
              from w1[OF that] have w: "within (universe g) fc1" .
              with Some have "fH \<subseteq> universe g" by (auto simp: within_def)
              with w fA1 show ?thesis unfolding eq by (simp add: within_upd)
            qed
            ultimately show ?thesis using eq by simp
          qed
        qed
      qed
    qed
  qed
qed

lemma follow_ok_done: "follow_ok g heads syms st (Inr (), st)"
  by (simp add: follow_ok_def follow_grows_refl)

lemma follow_ok_seq:
  assumes 1: "follow_ok g heads1 syms1 st (r1, st1)"
    and 2: "r1 = Inr u \<Longrightarrow> follow_ok g heads2 syms2 st1 res"
    and res: "res' = (case r1 of Inl e \<Rightarrow> (Inl e, st1) | Inr _ \<Rightarrow> res)"
    and sub: "heads1 \<subseteq> heads" "heads2 \<subseteq> heads" "syms1 \<subseteq> syms" "syms2 \<subseteq> syms"
  shows "follow_ok g heads syms st res'"
proof (cases r1)
  case (Inl e)
  with res have r: "res' = (Inl e, st1)" by simp
  from 1 Inl sub show ?thesis unfolding r follow_ok_def by auto
next
  case (Inr v)
  with res have r: "res' = res" by simp
  from Inr have ok2: "follow_ok g heads2 syms2 st1 res" using 2 by simp
  from 1 have g1: "follow_grows st st1" by (simp add: follow_ok_def)
  from ok2 have g2: "follow_grows st1 (snd res)" by (simp add: follow_ok_def)
  have d: "dom (fst st1) = dom (fst st)" using g1 by (simp add: follow_grows_def)
  have "follow_grows st (snd res)" using g1 g2 by (rule follow_grows_trans)
  moreover have "within (universe g) (fst st) \<longrightarrow> syms - set (non_terminals g) \<subseteq> universe g
      \<longrightarrow> within (universe g) (fst (snd res))"
    using 1 ok2 sub unfolding follow_ok_def by auto
  moreover have "(\<forall>A \<in> set (non_terminals g). first_cache g A \<noteq> None)
          \<and> set (non_terminals g) \<union> heads \<subseteq> dom (fst st) \<longrightarrow> fst res = Inr ()"
    using ok2 sub d unfolding follow_ok_def by auto
  ultimately show ?thesis unfolding r follow_ok_def by blast
qed

lemma follow_update_ok:
  "follow_ok g {head} (set omega) st (follow_update g head A omega st)"
proof -
  obtain fc ch where st: "st = (fc, ch)" by (cases st)
  obtain r fc' ch' where run: "follow_update g head A omega (fc, ch) = (r, fc', ch')"
    by (cases "follow_update g head A omega (fc, ch)") auto
  from follow_update_props[OF run] show ?thesis
    unfolding st run follow_ok_def follow_ready_def by auto
qed

lemma follow_body_ok:
  "follow_ok g {head} (set body) st (follow_body g head body st)"
proof (induction body arbitrary: st)
  case Nil
  show ?case by (simp add: follow_ok_done)
next
  case (Cons A omega)
  obtain r1 st1 where u: "follow_update g head A omega st = (r1, st1)"
    by (cases "follow_update g head A omega st") auto
  show ?case
  proof (rule follow_ok_seq)
    show "follow_ok g {head} (set omega) st (r1, st1)"
      using follow_update_ok[of g head omega st A] u by simp
    show "follow_ok g {head} (set omega) st1 (follow_body g head omega st1)"
      by (rule Cons.IH)
    show "follow_body g head (A # omega) st =
        (case r1 of Inl e \<Rightarrow> (Inl e, st1) | Inr _ \<Rightarrow> follow_body g head omega st1)"
      using u by (simp split: sum.splits)
  qed auto
qed

lemma follow_bodies_ok:
  "follow_ok g {head} (\<Union>b \<in> set bodies. set (symbols b)) st (follow_bodies g head bodies st)"
proof (induction bodies arbitrary: st)
  case Nil
  show ?case by (simp add: follow_ok_done)
next
  case (Cons b bodies)
  obtain r1 st1 where u: "follow_body g head (symbols b) st = (r1, st1)"
    by (cases "follow_body g head (symbols b) st") auto
  show ?case
  proof (rule follow_ok_seq)
    show "follow_ok g {head} (set (symbols b)) st (r1, st1)"
      using follow_body_ok[of g head "symbols b" st] u by simp
    show "follow_ok g {head} (\<Union>b \<in> set bodies. set (symbols b)) st1 (follow_bodies g head bodies st1)"
      by (rule Cons.IH)
    show "follow_bodies g head (b # bodies) st =
        (case r1 of Inl e \<Rightarrow> (Inl e, st1) | Inr _ \<Rightarrow> follow_bodies g head bodies st1)"
      using u by (simp split: sum.splits)
  qed auto
qed

lemma follow_items_ok:
  "follow_ok g (fst ` set items) (\<Union>(h, bs) \<in> set items. \<Union>b \<in> set bs. set (symbols b)) st
     (follow_items g items st)"
proof (induction items arbitrary: st)
  case Nil
  show ?case by (simp add: follow_ok_done)
next
  case (Cons item items)
  obtain head bodies where item: "item = (head, bodies)" by (cases item)
  obtain r1 st1 where u: "follow_bodies g head bodies st = (r1, st1)"
    by (cases "follow_bodies g head bodies st") auto
  show ?case
    unfolding item
  proof (rule follow_ok_seq)
    show "follow_ok g {head} (\<Union>b \<in> set bodies. set (symbols b)) st (r1, st1)"
      using follow_bodies_ok[of g head bodies st] u by simp
    show "follow_ok g (fst ` set items) (\<Union>(h, bs) \<in> set items. \<Union>b \<in> set bs. set (symbols b)) st1
       (follow_items g items st1)"
      by (rule Cons.IH)
    show "follow_items g ((head, bodies) # items) st =
        (case r1 of Inl e \<Rightarrow> (Inl e, st1) | Inr _ \<Rightarrow> follow_items g items st1)"
      using u by (simp split: sum.splits)
  qed auto
qed

lemma follow_pass_ok:
  "follow_ok g (fst ` set (productions g)) (body_symbols g) (fc, False) (follow_pass g fc)"
  unfolding follow_pass_def body_symbols_def by (rule follow_items_ok)

lemma body_symbols_universe: "body_symbols g - set (non_terminals g) \<subseteq> universe g"
  by (auto simp: universe_def)

lemma finite_body_symbols: "finite (body_symbols g)"
  by (auto simp: body_symbols_def)

lemma finite_universe:
  assumes "\<forall>A \<in> set (non_terminals g). \<forall>S. first_cache g A = Some S \<longrightarrow> finite S"
  shows "finite (universe g)"
proof -
  have "finite (case first_cache g A of None \<Rightarrow> {} | Some S \<Rightarrow> S - {''''})"
    if "A \<in> set (non_terminals g)" for A
    using assms that by (cases "first_cache g A") auto
  then show ?thesis by (simp add: universe_def finite_body_symbols)
qed

text \<open>what one pass does when FIRST is cached for all non-terminals\<close>

lemma follow_pass_step:
  assumes first: "\<forall>A \<in> set (non_terminals g). first_cache g A \<noteq> None"
    and heads: "fst ` set (productions g) \<subseteq> set (non_terminals g)"
    and dom: "dom fc = set (non_terminals g)"
    and w: "within (universe g) fc"
  shows "\<exists>fc' changed. follow_pass g fc = (Inr (), fc', changed)
     \<and> dom fc' = set (non_terminals g) \<and> within (universe g) fc'
     \<and> follow_graph fc \<subseteq> follow_graph fc'
     \<and> (changed \<longrightarrow> follow_graph fc \<subset> follow_graph fc')
     \<and> (\<not> changed \<longrightarrow> fc' = fc)"
proof -
  obtain r fc' changed where p: "follow_pass g fc = (r, fc', changed)"
    by (cases "follow_pass g fc") auto
  from follow_pass_ok[of g fc] have ok:
    "follow_ok g (fst ` set (productions g)) (body_symbols g) (fc, False) (r, fc', changed)"
    unfolding p .
  from ok first heads dom have "r = Inr ()" unfolding follow_ok_def by auto
  moreover from ok w body_symbols_universe[of g] have "within (universe g) fc'"
    unfolding follow_ok_def by auto
  moreover from ok have "follow_grows (fc, False) (fc', changed)" by (simp add: follow_ok_def)
  ultimately show ?thesis using p dom unfolding follow_grows_def by auto
qed

lemma follow_graph_bound:
  assumes "dom fc = N" "within U fc"
  shows "follow_graph fc \<subseteq> N \<times> U"
  using assms by (auto simp: follow_graph_def within_def)

lemma follow_while_terminates:
  assumes first: "\<forall>A \<in> set (non_terminals g). first_cache g A \<noteq> None"
    and heads: "fst ` set (productions g) \<subseteq> set (non_terminals g)"
    and fin: "finite (universe g)"
  shows "dom fc = set (non_terminals g) \<Longrightarrow> within (universe g) fc \<Longrightarrow>
     \<exists>fc'. follow_while g fc = Some (Inr (), fc')
       \<and> dom fc' = set (non_terminals g) \<and> within (universe g) fc'
       \<and> follow_graph fc \<subseteq> follow_graph fc'
       \<and> follow_pass g fc' = (Inr (), fc', False)"
proof (induction "card (set (non_terminals g) \<times> universe g - follow_graph fc)"
        arbitrary: fc rule: less_induct)
  case less
  let ?B = "set (non_terminals g) \<times> universe g"
  have finB: "finite ?B" using fin by simp
  from follow_pass_step[OF first heads less.prems]
  obtain fc1 changed where p: "follow_pass g fc = (Inr (), fc1, changed)"
    and d1: "dom fc1 = set (non_terminals g)" and w1: "within (universe g) fc1"
    and sub: "follow_graph fc \<subseteq> follow_graph fc1"
    and ch: "changed \<longrightarrow> follow_graph fc \<subset> follow_graph fc1"
    and nch: "\<not> changed \<longrightarrow> fc1 = fc" by blast
  show ?case
  proof (cases changed)
    case False
    with nch have "fc1 = fc" by simp
    with p False have "follow_while g fc = Some (Inr (), fc)"
      by (subst follow_while.simps) simp
    with p False \<open>fc1 = fc\<close> less.prems show ?thesis by auto
  next
    case True
    with ch have strict: "follow_graph fc \<subset> follow_graph fc1" by simp
    have b1: "follow_graph fc1 \<subseteq> ?B" using d1 w1 by (rule follow_graph_bound)
    have "?B - follow_graph fc1 \<subset> ?B - follow_graph fc" using strict b1 by blast
    then have "card (?B - follow_graph fc1) < card (?B - follow_graph fc)"
      using finB by (intro psubset_card_mono) auto
    from less.hyps[OF this d1 w1]
    obtain fc' where r: "follow_while g fc1 = Some (Inr (), fc')"
      "dom fc' = set (non_terminals g)" "within (universe g) fc'"
      "follow_graph fc1 \<subseteq> follow_graph fc'" "follow_pass g fc' = (Inr (), fc', False)"
      by blast
    from p True r(1) have "follow_while g fc = Some (Inr (), fc')"
      by (subst follow_while.simps) simp
    with r sub show ?thesis by auto
  qed
qed

lemma same_grammar_refl [simp]: "same_grammar g g"
  by (simp add: same_grammar_def)

lemma same_grammar_trans: "same_grammar g g' \<Longrightarrow> same_grammar g' g'' \<Longrightarrow> same_grammar g g''"
  by (simp add: same_grammar_def)

lemma same_grammar_first_cache [simp]: "same_grammar g (g\<lparr>first_cache := c\<rparr>)"
  by (simp add: same_grammar_def)

lemma same_grammar_follow_cache [simp]: "same_grammar g (g\<lparr>follow_cache := c\<rparr>)"
  by (simp add: same_grammar_def)

lemma same_grammar_valid: "same_grammar g g' \<Longrightarrow> valid_grammar g' = valid_grammar g"
  by (simp add: same_grammar_def valid_grammar_def)

lemma same_grammar_body_symbols: "same_grammar g g' \<Longrightarrow> body_symbols g' = body_symbols g"
  by (simp add: same_grammar_def body_symbols_def)

lemma same_grammar_cache_ok: "same_grammar g g' \<Longrightarrow> cache_ok g' c = cache_ok g c"
  by (simp add: cache_ok_def same_grammar_body_symbols) (simp add: same_grammar_def)

lemma ensure_cached_same:
  "same_grammar g g' \<Longrightarrow> ensure_cached rec g' symbol c = ensure_cached rec g symbol c"
  by (simp add: ensure_cached_def same_grammar_def)

lemma first_loop_same:
  assumes "same_grammar g g'"
  shows "first_loop rec g' seq fs c = first_loop rec g seq fs c"
proof (induction seq arbitrary: fs c)
  case Nil
  show ?case by simp
next
  case (Cons symbol rest)
  have t: "terminals g' = terminals g" "non_terminals g' = non_terminals g"
    using assms by (simp_all add: same_grammar_def)
  show ?case
    by (auto simp: t ensure_cached_same[OF assms] Cons.IH split: option.splits sum.splits prod.splits)
qed

lemma first_fuel_same:
  assumes "same_grammar g g'"
  shows "first_fuel n g' = first_fuel n g"
proof (induction n)
  case 0
  show ?case by (intro ext) (simp add: first_fuel.simps)
next
  case (Suc n)
  show ?case
    by (intro ext) (simp add: first_fuel.simps Suc first_loop_same[OF assms])
qed

text \<open>a second run of the loop on a cache above the final one of the first run\<close>

lemma first_loop_again:
  assumes rec: "first_sound g rec"
    and ok: "valid_grammar g \<or> (\<exists>S. r = Inr S)"
  shows "first_loop rec g seq fs c = Some (r, c') \<Longrightarrow> c' \<subseteq>\<^sub>m c'' \<Longrightarrow>
     first_loop rec' g seq fs c'' = Some (r, c'')"
proof (induction seq arbitrary: fs c)
  case Nil
  then show ?case by simp
next
  case (Cons symbol rest)
  show ?case
  proof (cases "symbol \<in> terminals g \<or> symbol \<notin> set (non_terminals g)")
    case True
    with Cons.prems(1) show ?thesis by auto
  next
    case False
    then have nt: "symbol \<in> set (non_terminals g)" and notT: "symbol \<notin> terminals g" by auto
    from Cons.prems(1) nt notT obtain r1 c1 where
      en: "ensure_cached rec g symbol c = Some (r1, c1)"
      by (auto split: option.splits)
    note e = ensure_cached_sound[OF rec en nt]
    from e obtain S1 where S1: "c1 symbol = Some S1" by auto
    have r1: "r1 = Inr ()"
    proof (cases r1)
      case (Inl err)
      with Cons.prems(1) en nt notT have "r = Inl err" by simp
      with ok have "valid_grammar g" by auto
      with e Inl show ?thesis by simp
    next
      case (Inr u)
      then show ?thesis by simp
    qed
    let ?fs' = "if rest = [] then insert '''' (fs \<union> (S1 - {''''})) else fs \<union> (S1 - {''''})"
    have c1le: "c1 \<subseteq>\<^sub>m c'"
    proof (cases "'''' \<in> S1")
      case False
      with Cons.prems(1) en nt notT r1 S1 have "c' = c1" by simp
      then show ?thesis by simp
    next
      case True
      with Cons.prems(1) en nt notT r1 S1
      have "first_loop rec g rest ?fs' c1 = Some (r, c')" by simp
      from first_loop_sound[OF rec this] show ?thesis by (rule conjunct1)
    qed
    from c1le Cons.prems(2) have "c1 \<subseteq>\<^sub>m c''" by (rule map_le_trans)
    with S1 have S1'': "c'' symbol = Some S1" by (auto simp: map_le_def dom_def)
    then have en'': "ensure_cached rec' g symbol c'' = Some (Inr (), c'')"
      by (simp add: ensure_cached_def)
    show ?thesis
    proof (cases "'''' \<in> S1")
      case False
      with Cons.prems(1) en nt notT r1 S1 have "r = Inr (fs \<union> (S1 - {''''}))" by simp
      with False en'' S1'' nt notT show ?thesis by simp
    next
      case True
      with Cons.prems(1) en nt notT r1 S1
      have "first_loop rec g rest ?fs' c1 = Some (r, c')" by simp
      from Cons.IH[OF this Cons.prems(2)] True en'' S1'' nt notT show ?thesis by simp
    qed
  qed
qed

lemma first_fuel_again:
  assumes ok: "valid_grammar g \<or> (\<exists>S. r = Inr S)"
    and run: "first_fuel n g c seq = Some (r, c')" and le: "c' \<subseteq>\<^sub>m c''"
  shows "first_fuel (Suc m) g c'' seq = Some (r, c'')"
proof (cases n)
  case 0
  with run show ?thesis by (simp add: first_fuel.simps)
next
  case (Suc k)
  show ?thesis
  proof (cases "seq = []")
    case True
    with run Suc show ?thesis by (simp add: first_fuel.simps)
  next
    case False
    with run Suc have "first_loop (first_fuel k g) g seq {} c = Some (r, c')"
      by (simp add: first_fuel.simps)
    from first_loop_again[OF first_fuel_sound ok this le, of "first_fuel m g"] False
    show ?thesis by (simp add: first_fuel.simps)
  qed
qed

lemma compute_first_SomeD:
  assumes "compute_first g s = Some (r, g')"
  shows "\<exists>c. first_fuel (Suc (length (non_terminals g))) g (first_cache g) s = Some (r, c)
     \<and> g' = g\<lparr>first_cache := c\<rparr>"
  using assms by (auto simp: compute_first_def split: option.splits)

lemma compute_first_again:
  assumes ok: "valid_grammar g \<or> (\<exists>S. r = Inr S)"
    and run: "compute_first g s = Some (r, g1)"
    and g2: "same_grammar g1 g2" "first_cache g1 \<subseteq>\<^sub>m first_cache g2"
  shows "compute_first g2 s = Some (r, g2)"
proof -
  from compute_first_SomeD[OF run] obtain c where
    c: "first_fuel (Suc (length (non_terminals g))) g (first_cache g) s = Some (r, c)"
    and g1: "g1 = g\<lparr>first_cache := c\<rparr>" by blast
  have sg: "same_grammar g g2" using g1 g2(1) by (simp add: same_grammar_def)
  have le: "c \<subseteq>\<^sub>m first_cache g2" using g2(2) g1 by simp
  from first_fuel_again[OF ok c le, of "length (non_terminals g)"]
  have "first_fuel (Suc (length (non_terminals g2))) g2 (first_cache g2) s
          = Some (r, first_cache g2)"
    using sg by (simp add: first_fuel_same[OF sg]) (simp add: same_grammar_def)
  then show ?thesis by (simp add: compute_first_def)
qed

lemma valid_disjoint: "valid_grammar g \<Longrightarrow> A \<in> set (non_terminals g) \<Longrightarrow> A \<notin> terminals g"
  by (auto simp: valid_grammar_def invalid_input_def)

lemma valid_axiom: "valid_grammar g \<Longrightarrow> axiom g \<in> set (non_terminals g)"
  by (auto simp: valid_grammar_def invalid_input_def)

lemma valid_heads: "valid_grammar g \<Longrightarrow> fst ` set (productions g) \<subseteq> set (non_terminals g)"
  by (auto simp: valid_grammar_def invalid_input_def)

lemma first_loop_caches:
  assumes rec: "first_sound g rec"
    and run: "first_loop rec g (symbol # rest) fs c = Some (r, c')"
    and nt: "symbol \<in> set (non_terminals g)" "symbol \<notin> terminals g"
  shows "symbol \<in> dom c'"
proof -
  from run nt obtain r1 c1 where en: "ensure_cached rec g symbol c = Some (r1, c1)"
    by (auto split: option.splits)
  note e = ensure_cached_sound[OF rec en nt(1)]
  from e obtain S1 where S1: "c1 symbol = Some S1" by auto
  have "c1 \<subseteq>\<^sub>m c'"
  proof (cases "r1 = Inr () \<and> '''' \<in> S1")
    case True
    with run en nt S1 have "first_loop rec g rest
        (if rest = [] then insert '''' (fs \<union> (S1 - {''''})) else fs \<union> (S1 - {''''})) c1 = Some (r, c')"
      by simp
    from first_loop_sound[OF rec this] show ?thesis by (rule conjunct1)
  next
    case False
    with run en nt S1 have "c' = c1" by (cases r1) (auto split: if_splits)
    then show ?thesis by simp
  qed
  with S1 show ?thesis by (auto simp: map_le_def dom_def)
qed

lemma compute_first_props:
  assumes run: "compute_first g s = Some (r, g')"
  shows "same_grammar g g' \<and> follow_cache g' = follow_cache g
     \<and> first_cache g \<subseteq>\<^sub>m first_cache g'
     \<and> (cache_ok g (first_cache g) \<longrightarrow> cache_ok g (first_cache g')
          \<and> (\<forall>S. r = Inr S \<longrightarrow> finite S \<and> S \<subseteq> insert '''' (terminals g \<inter> (body_symbols g \<union> set s))))
     \<and> (valid_grammar g \<longrightarrow> set s \<subseteq> terminals g \<union> set (non_terminals g) \<longrightarrow> (\<exists>S. r = Inr S))"
proof -
  from compute_first_SomeD[OF run] obtain c where
    c: "first_fuel (Suc (length (non_terminals g))) g (first_cache g) s = Some (r, c)"
    and g': "g' = g\<lparr>first_cache := c\<rparr>" by blast
  from first_fuel_sound[of g "Suc (length (non_terminals g))"] c
  have "first_cache g \<subseteq>\<^sub>m c
     \<and> (cache_ok g (first_cache g) \<longrightarrow> cache_ok g c
          \<and> (\<forall>S. r = Inr S \<longrightarrow> finite S \<and> S \<subseteq> insert '''' (terminals g \<inter> (body_symbols g \<union> set s))))
     \<and> (valid_grammar g \<longrightarrow> set s \<subseteq> terminals g \<union> set (non_terminals g) \<longrightarrow> (\<exists>S. r = Inr S))"
    unfolding first_sound_def by blast
  then show ?thesis unfolding g' by simp
qed

lemma compute_first_nt:
  assumes valid: "valid_grammar g" and nt: "nt \<in> set (non_terminals g)"
  shows "\<exists>S g'. compute_first g [nt] = Some (Inr S, g') \<and> nt \<in> dom (first_cache g')"
proof -
  obtain r g' where run: "compute_first g [nt] = Some (r, g')"
    using compute_first_total[of g "[nt]"] by (cases "compute_first g [nt]") auto
  from compute_first_props[OF run] valid nt obtain S where r: "r = Inr S" by auto
  from compute_first_SomeD[OF run] obtain c where
    c: "first_fuel (Suc (length (non_terminals g))) g (first_cache g) [nt] = Some (r, c)"
    and g': "g' = g\<lparr>first_cache := c\<rparr>" by blast
  from c have "first_loop (first_fuel (length (non_terminals g)) g) g [nt] {} (first_cache g)
       = Some (r, c)" by (simp add: first_fuel.simps)
  from first_loop_caches[OF first_fuel_sound this nt valid_disjoint[OF valid nt]]
  have "nt \<in> dom c" .
  with run r g' show ?thesis by simp
qed

lemma first_all_props:
  "first_all g nts = Some (r, g1) \<Longrightarrow>
     same_grammar g g1 \<and> follow_cache g1 = follow_cache g
     \<and> first_cache g \<subseteq>\<^sub>m first_cache g1
     \<and> (cache_ok g (first_cache g) \<longrightarrow> cache_ok g (first_cache g1))"
proof (induction nts arbitrary: g)
  case Nil
  then show ?case by simp
next
  case (Cons nt nts)
  from Cons.prems obtain r' g' where cf: "compute_first g [nt] = Some (r', g')"
    by (auto split: option.splits)
  note p = compute_first_props[OF cf]
  from p have sg: "same_grammar g g'" by (rule conjunct1)
  show ?case
  proof (cases r')
    case (Inl e)
    with Cons.prems cf have "g1 = g'" by simp
    with p show ?thesis by simp
  next
    case (Inr S)
    with Cons.prems cf have "first_all g' nts = Some (r, g1)" by simp
    from Cons.IH[OF this] p show ?thesis
      by (auto simp: same_grammar_cache_ok[OF sg] intro: same_grammar_trans map_le_trans)
  qed
qed

lemma first_all_valid:
  "valid_grammar g \<Longrightarrow> set nts \<subseteq> set (non_terminals g) \<Longrightarrow>
     \<exists>g1. first_all g nts = Some (Inr (), g1) \<and> set nts \<subseteq> dom (first_cache g1)"
proof (induction nts arbitrary: g)
  case Nil
  show ?case by simp
next
  case (Cons nt nts)
  from Cons.prems have nt: "nt \<in> set (non_terminals g)" by simp
  from compute_first_nt[OF Cons.prems(1) nt] obtain S g' where
    cf: "compute_first g [nt] = Some (Inr S, g')" and d: "nt \<in> dom (first_cache g')" by blast
  from compute_first_props[OF cf] have sg: "same_grammar g g'" by (rule conjunct1)
  have v': "valid_grammar g'" using Cons.prems(1) same_grammar_valid[OF sg] by simp
  have n': "set nts \<subseteq> set (non_terminals g')" using Cons.prems(2) sg by (simp add: same_grammar_def)
  from Cons.IH[OF v' n'] obtain g1 where
    fa: "first_all g' nts = Some (Inr (), g1)" and d1: "set nts \<subseteq> dom (first_cache g1)" by blast
  from first_all_props[OF fa] have "first_cache g' \<subseteq>\<^sub>m first_cache g1" by blast
  with d have "nt \<in> dom (first_cache g1)" by (auto simp: map_le_def dom_def)
  with cf fa d1 show ?case by simp
qed

lemma first_all_again:
  "first_all g nts = Some (Inr (), g1) \<Longrightarrow> same_grammar g1 g2 \<Longrightarrow>
     first_cache g1 \<subseteq>\<^sub>m first_cache g2 \<Longrightarrow> first_all g2 nts = Some (Inr (), g2)"
proof (induction nts arbitrary: g)
  case Nil
  show ?case by simp
next
  case (Cons nt nts)
  from Cons.prems(1) obtain S g' where cf: "compute_first g [nt] = Some (Inr S, g')"
    and fa: "first_all g' nts = Some (Inr (), g1)"
    by (auto split: option.splits sum.splits)
  from first_all_props[OF fa] have sg: "same_grammar g' g1"
    and le: "first_cache g' \<subseteq>\<^sub>m first_cache g1" by blast+
  have "compute_first g2 [nt] = Some (Inr S, g2)"
  proof (rule compute_first_again[OF _ cf])
    show "valid_grammar g \<or> (\<exists>S'. Inr S = Inr S')" by simp
    show "same_grammar g' g2" using sg Cons.prems(2) by (rule same_grammar_trans)
    show "first_cache g' \<subseteq>\<^sub>m first_cache g2" using le Cons.prems(3) by (rule map_le_trans)
  qed
  moreover have "first_all g2 nts = Some (Inr (), g2)"
    using fa Cons.prems(2,3) by (rule Cons.IH)
  ultimately show ?case by simp
qed

text \<open>the follow pass reads the non-terminals, the productions and the FIRST cache only\<close>

lemma first_star_same:
  assumes "non_terminals g' = non_terminals g" "first_cache g' = first_cache g"
  shows "first_star g' omega acc = first_star g omega acc"
  by (induction omega arbitrary: acc) (auto simp: assms split: option.splits)

lemma follow_update_same:
  assumes "non_terminals g' = non_terminals g" "first_cache g' = first_cache g"
  shows "follow_update g' head A omega st = follow_update g head A omega st"
proof -
  have fo: "first_omega_of g' = first_omega_of g"
    by (intro ext) (simp add: first_omega_of_def first_star_same[OF assms])
  show ?thesis unfolding follow_update_def fo assms(1) by (rule refl)
qed

lemma follow_body_same:
  assumes "non_terminals g' = non_terminals g" "first_cache g' = first_cache g"
  shows "follow_body g' head body st = follow_body g head body st"
  by (induction body arbitrary: st)
    (auto simp: follow_update_same[OF assms] split: prod.splits sum.splits)

lemma follow_bodies_same:
  assumes "non_terminals g' = non_terminals g" "first_cache g' = first_cache g"
  shows "follow_bodies g' head bodies st = follow_bodies g head bodies st"
  by (induction bodies arbitrary: st)
    (auto simp: follow_body_same[OF assms] split: prod.splits sum.splits)

lemma follow_items_same:
  assumes "non_terminals g' = non_terminals g" "first_cache g' = first_cache g"
  shows "follow_items g' items st = follow_items g items st"
  by (induction items arbitrary: st)
    (auto simp: follow_bodies_same[OF assms] split: prod.splits sum.splits)

lemma follow_pass_same:
  assumes "same_grammar g g'" "first_cache g' = first_cache g"
  shows "follow_pass g' fc = follow_pass g fc"
  using assms follow_items_same[of g' g]
  by (simp add: follow_pass_def same_grammar_def)

lemma follow_while_same:
  assumes run: "follow_while g fc = Some x"
    and same: "\<forall>fc. follow_pass g' fc = follow_pass g fc"
  shows "follow_while g' fc = Some x"
proof -
  define P where "P = (\<lambda>g0 fc x. g0 = g \<longrightarrow> follow_while g' fc = Some x)"
  have "P g fc x"
  proof (rule follow_while.raw_induct[where P = P, OF _ run])
    fix loop g0 fc x
    assume IH: "\<And>a b y. loop a b = Some y \<Longrightarrow> P a b y"
      and body: "(case follow_pass g0 fc of
          (Inl e, fc', changed) \<Rightarrow> Some (Inl e, fc')
        | (Inr _, fc', changed) \<Rightarrow> if changed then loop g0 fc' else Some (Inr (), fc')) = Some x"
    show "P g0 fc x"
      unfolding P_def
    proof
      assume g0: "g0 = g"
      obtain r fc' changed where p: "follow_pass g fc = (r, fc', changed)"
        by (cases "follow_pass g fc") auto
      with same have p': "follow_pass g' fc = (r, fc', changed)" by simp
      show "follow_while g' fc = Some x"
      proof (cases "\<exists>u. r = Inr u \<and> changed")
        case True
        with body g0 p have "loop g fc' = Some x" by auto
        then have "P g fc' x" by (rule IH)
        then have "follow_while g' fc' = Some x" by (simp add: P_def)
        with True p' show ?thesis by (subst follow_while.simps) auto
      next
        case False
        with body g0 p p' show ?thesis
          by (subst follow_while.simps) (cases r; auto)
      qed
    qed
  qed
  then show ?thesis by (simp add: P_def)
qed

lemma universe_same:
  "same_grammar g g' \<Longrightarrow> first_cache g' = first_cache g \<Longrightarrow> universe g' = universe g"
  by (simp add: universe_def same_grammar_body_symbols) (simp add: same_grammar_def)

lemma cache_ok_finite:
  "cache_ok g c \<Longrightarrow> \<forall>A \<in> N. \<forall>S. c A = Some S \<longrightarrow> finite S"
  by (auto simp: cache_ok_def)

lemma dom_empty_follow: "dom (empty_follow nts) = set nts"
  by (auto simp: empty_follow_def split: if_splits)

lemma compute_follow_valid:
  assumes valid: "valid_grammar g" and ok: "cache_ok g (first_cache g)"
    and A: "A \<in> set (non_terminals g)"
  shows "\<exists>S g'. compute_follow g A = Some (Inr S, g') \<and> same_grammar g g'
     \<and> first_cache g \<subseteq>\<^sub>m first_cache g' \<and> cache_ok g (first_cache g')
     \<and> set (non_terminals g) \<subseteq> dom (first_cache g')
     \<and> dom (follow_cache g') = set (non_terminals g)
     \<and> within (universe g') (follow_cache g')
     \<and> follow_cache g' A = Some S
     \<and> (\<exists>F. follow_cache g' (axiom g) = Some F \<and> ''$'' \<in> F)
     \<and> follow_pass g' (follow_cache g') = (Inr (), follow_cache g', False)"
proof -
  let ?N = "non_terminals g"
  from first_all_valid[OF valid subset_refl] obtain ga where
    fa: "first_all g ?N = Some (Inr (), ga)" and da: "set ?N \<subseteq> dom (first_cache ga)" by blast
  from first_all_props[OF fa] ok have sg: "same_grammar g ga"
    and le: "first_cache g \<subseteq>\<^sub>m first_cache ga" and oka: "cache_ok g (first_cache ga)" by blast+
  have Na: "non_terminals ga = ?N" and axa: "axiom ga = axiom g"
    and pa: "productions ga = productions g" using sg by (simp_all add: same_grammar_def)
  have ax: "axiom g \<in> set ?N" using valid by (rule valid_axiom)
  define fc0 where "fc0 = (empty_follow ?N)(axiom g \<mapsto> insert ''$'' {})"
  have e0: "empty_follow ?N (axiom g) = Some {}" using ax by (simp add: empty_follow_def)
  have d0: "dom fc0 = set (non_terminals ga)"
    using ax by (auto simp: fc0_def Na dom_empty_follow)
  have w0: "within (universe ga) fc0"
    by (auto simp: within_def fc0_def empty_follow_def universe_def split: if_splits)
  have first: "\<forall>B \<in> set (non_terminals ga). first_cache ga B \<noteq> None"
    using da Na by auto
  have heads: "fst ` set (productions ga) \<subseteq> set (non_terminals ga)"
    using valid_heads[OF valid] Na pa by simp
  have fin: "finite (universe ga)"
    using cache_ok_finite[OF oka] by (rule finite_universe)
  from follow_while_terminates[OF first heads fin d0 w0] obtain fc' where
    fw: "follow_while ga fc0 = Some (Inr (), fc')"
    and d': "dom fc' = set (non_terminals ga)" and w': "within (universe ga) fc'"
    and gr: "follow_graph fc0 \<subseteq> follow_graph fc'"
    and fixp: "follow_pass ga fc' = (Inr (), fc', False)" by blast
  from d' A Na obtain S where S: "fc' A = Some S" by auto
  have "(axiom g, ''$'') \<in> follow_graph fc0" by (simp add: follow_graph_def fc0_def)
  with gr have "(axiom g, ''$'') \<in> follow_graph fc'" by blast
  then obtain F where F: "fc' (axiom g) = Some F" "''$'' \<in> F" by (auto simp: follow_graph_def)
  let ?g' = "ga\<lparr>follow_cache := fc'\<rparr>"
  have cf: "compute_follow g A = Some (Inr S, ?g')"
    using fa A e0 fw S unfolding compute_follow_def fc0_def by (simp add: Na axa)
  have sg': "same_grammar g ?g'" using sg by (simp add: same_grammar_def)
  have "universe ?g' = universe ga" by (rule universe_same) simp_all
  moreover have "follow_pass ?g' fc' = follow_pass ga fc'" by (rule follow_pass_same) simp_all
  ultimately show ?thesis
    using cf sg' le oka da d' w' S F fixp Na by auto
qed

lemma compute_follow_again:
  assumes valid: "valid_grammar g" and run: "compute_follow g A = Some (r, g1)"
  shows "compute_follow g1 A = Some (r, g1)"
proof -
  let ?N = "non_terminals g"
  from first_all_valid[OF valid subset_refl] obtain ga where
    fa: "first_all g ?N = Some (Inr (), ga)" by blast
  from first_all_props[OF fa] have sg: "same_grammar g ga" by blast
  have Na: "non_terminals ga = ?N" and axa: "axiom ga = axiom g"
    using sg by (simp_all add: same_grammar_def)
  have again: "first_all g2 ?N = Some (Inr (), g2)"
    if "same_grammar ga g2" "first_cache g2 = first_cache ga" for g2
    using fa that(1) by (rule first_all_again) (simp add: that(2))
  show ?thesis
  proof (cases "A \<in> set ?N")
    case False
    with run fa have r: "r = Inl ValueError" "g1 = ga" by (auto simp: compute_follow_def Na)
    from again[of ga] have "first_all ga (non_terminals ga) = Some (Inr (), ga)" by (simp add: Na)
    with False show ?thesis unfolding r compute_follow_def by (simp add: Na)
  next
    case True
    show ?thesis
    proof (cases "empty_follow ?N (axiom g)")
      case None
      let ?g1 = "ga\<lparr>follow_cache := empty_follow ?N\<rparr>"
      from None run fa True have r: "r = Inl KeyError" "g1 = ?g1"
        by (auto simp: compute_follow_def Na axa)
      from again[of ?g1] have "first_all ?g1 (non_terminals ?g1) = Some (Inr (), ?g1)"
        by (simp add: Na)
      with True None show ?thesis unfolding r compute_follow_def by (simp add: Na axa)
    next
      case (Some s)
      let ?fc0 = "(empty_follow ?N)(axiom g \<mapsto> insert ''$'' s)"
      from Some run fa True obtain x fc where fw: "follow_while ga ?fc0 = Some (x, fc)"
        and g1: "g1 = ga\<lparr>follow_cache := fc\<rparr>"
        and r: "r = (case x of Inl e \<Rightarrow> Inl e
                     | Inr _ \<Rightarrow> (case fc A of None \<Rightarrow> Inl KeyError | Some S \<Rightarrow> Inr S))"
        by (auto simp: compute_follow_def Na axa split: option.splits sum.splits)
      have fa1: "first_all g1 (non_terminals g1) = Some (Inr (), g1)"
        using again[of g1] by (simp add: g1 Na)
      have "\<forall>fc. follow_pass g1 fc = follow_pass ga fc"
        by (intro allI follow_pass_same) (simp_all add: g1)
      with fw have fw1: "follow_while g1 ?fc0 = Some (x, fc)" by (rule follow_while_same)
      have g1id: "g1\<lparr>follow_cache := fc\<rparr> = g1" by (simp add: g1)
      have N1: "non_terminals g1 = ?N" "axiom g1 = axiom g" by (simp_all add: g1 Na axa)
      show ?thesis
        unfolding compute_follow_def
        using fa1 True Some fw1 r g1id
        by (auto simp: N1 split: sum.splits option.splits)
    qed
  qed
qed


























section \<open>The claims on FIRST and FOLLOW\<close>

lemma valid_g_SaB: "valid_grammar g_SaB"
  by (simp add: valid_grammar_def invalid_input_def g_SaB_def symbols_def)

lemma cache_ok_g_SaB: "cache_ok g_SaB (first_cache g_SaB)"
  by (simp add: cache_ok_def g_SaB_def)

text \<open>
  The two hypotheses used below hold in every state of a \<open>Grammar\<close> object: the
  constructor establishes them and both methods keep them, whatever they return or
  raise.
\<close>

lemma Grammar_init_valid:
  assumes "Grammar_init ts nts prods ax = Inr g"
  shows "valid_grammar g \<and> cache_ok g (first_cache g)"
proof -
  from assms have ni: "\<not> invalid_input ts nts prods ax"
    and g: "g = \<lparr>terminals = ts, non_terminals = nts, productions = prods, axiom = ax,
                first_cache = Map.empty, follow_cache = empty_follow nts\<rparr>"
    unfolding Grammar_init_raises_eq by (auto split: if_splits)
  from ni show ?thesis unfolding g by (simp add: valid_grammar_def cache_ok_def)
qed

lemma compute_first_keeps:
  assumes "compute_first g s = Some (r, g')" "valid_grammar g" "cache_ok g (first_cache g)"
  shows "valid_grammar g' \<and> cache_ok g' (first_cache g')"
proof -
  note p = compute_first_props[OF assms(1)]
  from p have sg: "same_grammar g g'" by (rule conjunct1)
  from p assms(3) have "cache_ok g (first_cache g')" by blast
  with assms(2) show ?thesis
    by (simp add: same_grammar_valid[OF sg] same_grammar_cache_ok[OF sg])
qed

lemma compute_follow_keeps:
  assumes "compute_follow g A = Some (r, g')" "valid_grammar g" "cache_ok g (first_cache g)"
  shows "valid_grammar g' \<and> cache_ok g' (first_cache g')"
proof -
  from assms(1) obtain r1 ga where fa: "first_all g (non_terminals g) = Some (r1, ga)"
    and fc: "first_cache g' = first_cache ga" and sg1: "same_grammar ga g'"
    by (auto simp: compute_follow_def split: option.splits sum.splits if_splits)
  from first_all_props[OF fa] assms(3) have sg: "same_grammar g ga"
    and ok: "cache_ok g (first_cache ga)" by blast+
  have sg': "same_grammar g g'" using sg sg1 by (rule same_grammar_trans)
  from ok assms(2) show ?thesis
    by (simp add: fc same_grammar_valid[OF sg'] same_grammar_cache_ok[OF sg'])
qed

text \<open>
  Claim C6. For a valid grammar whose non-terminals all have their FIRST set in the
  cache, and a FOLLOW cache \<open>fc\<close> that holds a subset of the finite universe (the
  cached FIRST sets, the symbols of the bodies and \<open>$\<close>) for each non-terminal:
  a pass of the loop raises nothing, only enlarges FOLLOW sets within the universe,
  and either sets \<open>changed\<close> and has added a new symbol to some FOLLOW set, or leaves
  the cache as it is and is the last pass; and the loop terminates, in a cache that
  a further pass leaves unchanged.
\<close>

theorem follow_fixed_point_terminates:
  assumes "valid_grammar g"
    and "\<forall>A \<in> set (non_terminals g). \<exists>S. first_cache g A = Some S \<and> finite S"
    and "dom fc = set (non_terminals g)"
    and "within (universe g) fc"
  shows "finite (universe g)
    \<and> (\<exists>fc' changed. follow_pass g fc = (Inr (), fc', changed)
          \<and> dom fc' = set (non_terminals g) \<and> within (universe g) fc'
          \<and> follow_graph fc \<subseteq> follow_graph fc'
          \<and> (changed \<longrightarrow> follow_graph fc \<subset> follow_graph fc')
          \<and> (\<not> changed \<longrightarrow> fc' = fc \<and> follow_while g fc = Some (Inr (), fc)))
    \<and> (\<exists>fc'. follow_while g fc = Some (Inr (), fc')
          \<and> dom fc' = set (non_terminals g) \<and> within (universe g) fc'
          \<and> follow_graph fc \<subseteq> follow_graph fc'
          \<and> follow_pass g fc' = (Inr (), fc', False))"
proof -
  have first: "\<forall>A \<in> set (non_terminals g). first_cache g A \<noteq> None"
    using assms(2) by auto
  have heads: "fst ` set (productions g) \<subseteq> set (non_terminals g)"
    using assms(1) by (rule valid_heads)
  have fin: "finite (universe g)"
    by (rule finite_universe) (use assms(2) in auto)
  from follow_pass_step[OF first heads assms(3,4)]
  obtain fc1 changed where p: "follow_pass g fc = (Inr (), fc1, changed)"
    and p1: "dom fc1 = set (non_terminals g)" "within (universe g) fc1"
      "follow_graph fc \<subseteq> follow_graph fc1"
      "changed \<longrightarrow> follow_graph fc \<subset> follow_graph fc1" "\<not> changed \<longrightarrow> fc1 = fc"
    by blast
  have last: "follow_while g fc = Some (Inr (), fc)" if "\<not> changed"
    using p p1(5) that by (subst follow_while.simps) simp
  from follow_while_terminates[OF first heads fin assms(3,4)]
  have "\<exists>fc'. follow_while g fc = Some (Inr (), fc')
          \<and> dom fc' = set (non_terminals g) \<and> within (universe g) fc'
          \<and> follow_graph fc \<subseteq> follow_graph fc'
          \<and> follow_pass g fc' = (Inr (), fc', False)" .
  with fin p p1 last show ?thesis by blast
qed

theorem follow_fixed_point_terminates_witness:
  "valid_grammar g_SaB_cached
   \<and> non_terminals g_SaB_cached = [''S'', ''B'']
   \<and> first_cache g_SaB_cached ''S'' = Some {''a''}
   \<and> first_cache g_SaB_cached ''B'' = Some {''b''}
   \<and> dom ((empty_follow [''S'', ''B''])(''S'' \<mapsto> {''$''})) = set (non_terminals g_SaB_cached)
   \<and> within (universe g_SaB_cached) ((empty_follow [''S'', ''B''])(''S'' \<mapsto> {''$''}))
   \<and> (\<exists>fc'. follow_while g_SaB_cached ((empty_follow [''S'', ''B''])(''S'' \<mapsto> {''$''}))
               = Some (Inr (), fc'))"
proof -
  have 1: "valid_grammar g_SaB_cached"
    by (simp add: valid_grammar_def invalid_input_def g_SaB_cached_def g_SaB_def symbols_def)
  have 2: "\<forall>A \<in> set (non_terminals g_SaB_cached).
             \<exists>S. first_cache g_SaB_cached A = Some S \<and> finite S"
    by (simp add: g_SaB_cached_def g_SaB_def)
  have 3: "dom ((empty_follow [''S'', ''B''])(''S'' \<mapsto> {''$''}))
             = set (non_terminals g_SaB_cached)"
    by (auto simp: g_SaB_cached_def g_SaB_def empty_follow_def split: if_splits)
  have 4: "within (universe g_SaB_cached) ((empty_follow [''S'', ''B''])(''S'' \<mapsto> {''$''}))"
    by (auto simp: within_def universe_def empty_follow_def split: if_splits)
  have 5: "non_terminals g_SaB_cached = [''S'', ''B'']"
    "first_cache g_SaB_cached ''S'' = Some {''a''}"
    "first_cache g_SaB_cached ''B'' = Some {''b''}"
    by (simp_all add: g_SaB_cached_def g_SaB_def)
  from follow_fixed_point_terminates[OF 1 2 3 4] 1 3 4 5 show ?thesis by blast
qed

text \<open>
  Claim C5, as stated: after any call of \<open>compute_follow\<close> the cached FOLLOW set
  of the axiom contains \<open>$\<close>. A call whose argument is not a non-terminal raises
  \<open>ValueError\<close> before the FOLLOW cache is rebuilt; on a new object the cached set
  of the axiom is then still the empty set of the constructor.
\<close>

theorem compute_follow_raises_without_end_marker:
  "map_option fst (compute_follow g_SaB ''a'') = Some (Inl ValueError)
   \<and> map_option (axiom_follow \<circ> snd) (compute_follow g_SaB ''a'') = Some (Some {})"
  by (simp add: first_eval follow_eval g_SaB_def axiom_follow_def)

text \<open>
  Claim C5, amended: for a valid grammar, \<open>compute_follow\<close> of the axiom returns a
  set that contains \<open>$\<close>, and after every call of \<open>compute_follow\<close> on a
  non-terminal (every call that returns) the cached FOLLOW set of the axiom
  contains \<open>$\<close>.
\<close>

theorem compute_follow_axiom_end_marker:
  assumes "valid_grammar g" and "cache_ok g (first_cache g)"
  shows "(\<exists>S g'. compute_follow g (axiom g) = Some (Inr S, g') \<and> ''$'' \<in> S)
    \<and> (\<forall>A \<in> set (non_terminals g).
          \<exists>S g' F. compute_follow g A = Some (Inr S, g') \<and> axiom_follow g' = Some F \<and> ''$'' \<in> F)"
proof -
  have gen: "\<exists>S g' F. compute_follow g A = Some (Inr S, g') \<and> follow_cache g' A = Some S
       \<and> axiom_follow g' = Some F \<and> ''$'' \<in> F"
    if "A \<in> set (non_terminals g)" for A
  proof -
    from compute_follow_valid[OF assms that] obtain S g' F where
      "compute_follow g A = Some (Inr S, g')" "same_grammar g g'"
      "follow_cache g' A = Some S" "follow_cache g' (axiom g) = Some F" "''$'' \<in> F"
      by blast
    then show ?thesis by (auto simp: axiom_follow_def same_grammar_def)
  qed
  from gen[OF valid_axiom[OF assms(1)]] obtain S g' F where
    r: "compute_follow g (axiom g) = Some (Inr S, g')" "follow_cache g' (axiom g) = Some S"
      "axiom_follow g' = Some F" "''$'' \<in> F" by blast
  from compute_follow_valid[OF assms valid_axiom[OF assms(1)]] r(1)
  have "axiom g' = axiom g" by (auto simp: same_grammar_def)
  with r have "''$'' \<in> S" by (simp add: axiom_follow_def)
  with r(1) gen show ?thesis by blast
qed

theorem compute_follow_axiom_end_marker_witness:
  "valid_grammar g_SaB \<and> cache_ok g_SaB (first_cache g_SaB)
   \<and> map_option fst (compute_follow g_SaB (axiom g_SaB)) = Some (Inr {''$''})"
proof -
  have "map_option fst (compute_follow g_SaB (axiom g_SaB)) = Some (Inr {''$''})"
    by (simp add: first_eval follow_eval g_SaB_def)
  with compute_follow_axiom_end_marker[OF valid_g_SaB cache_ok_g_SaB] valid_g_SaB cache_ok_g_SaB
  show ?thesis by blast
qed

text \<open>
  Claim C7. On a valid grammar a call of \<open>compute_first\<close> returns (or raises), and
  the same call repeated on the object gives the same set (or exception) and
  leaves the object as the first call left it; likewise for \<open>compute_follow\<close>,
  which rebuilds its cache on each call.
\<close>

theorem first_follow_idempotent:
  assumes "valid_grammar g" and "cache_ok g (first_cache g)"
  shows "(\<exists>r g1. compute_first g sentence = Some (r, g1)
            \<and> compute_first g1 sentence = Some (r, g1))
    \<and> (\<exists>r g1. compute_follow g symbol = Some (r, g1)
            \<and> compute_follow g1 symbol = Some (r, g1))"
proof -
  obtain r g1 where cf: "compute_first g sentence = Some (r, g1)"
    using compute_first_total[of g sentence] by (cases "compute_first g sentence") auto
  have "compute_first g1 sentence = Some (r, g1)"
    by (rule compute_first_again[OF _ cf]) (simp_all add: assms(1))
  moreover
  have "\<exists>r g1. compute_follow g symbol = Some (r, g1)"
  proof (cases "symbol \<in> set (non_terminals g)")
    case True
    from compute_follow_valid[OF assms True] show ?thesis by blast
  next
    case False
    from first_all_valid[OF assms(1) subset_refl] obtain ga where
      fa: "first_all g (non_terminals g) = Some (Inr (), ga)" by blast
    from first_all_props[OF fa] have "non_terminals ga = non_terminals g"
      by (simp add: same_grammar_def)
    with fa False show ?thesis by (simp add: compute_follow_def)
  qed
  then obtain r' g2 where fo: "compute_follow g symbol = Some (r', g2)" by blast
  from compute_follow_again[OF assms(1) fo] have "compute_follow g2 symbol = Some (r', g2)" .
  ultimately show ?thesis using cf fo by blast
qed

theorem first_follow_idempotent_witness:
  "valid_grammar g_SaB \<and> cache_ok g_SaB (first_cache g_SaB)
   \<and> map_option fst (compute_first g_SaB [''S'']) = Some (Inr {''a''})
   \<and> map_option fst (compute_follow g_SaB ''B'') = Some (Inr {''$''})"
proof -
  have 1: "map_option fst (compute_first g_SaB [''S'']) = Some (Inr {''a''})"
    by (simp add: first_eval g_SaB_def)
  have 2: "map_option fst (compute_follow g_SaB ''B'') = Some (Inr {''$''})"
    by (simp add: first_eval follow_eval g_SaB_def)
  from first_follow_idempotent[OF valid_g_SaB cache_ok_g_SaB, of "[''S'']" "''B''"]
    valid_g_SaB cache_ok_g_SaB 1 2
  show ?thesis by blast
qed
section \<open>The claim on the LL(1) table\<close>






end
